theory Spec2Isabelle
  imports Complex_Main "HOL-Library.Word"
begin

section \<open>Python string primitives used by eval\_performance.py\<close>

text \<open>
  Design texts are modelled as HOL strings: a list of 8-bit characters, read as the code
  points 0..255 of a Python \<open>str\<close>. The generator emits ASCII Verilog.
\<close>

definition is_space :: "char \<Rightarrow> bool" where
  \<comment> \<open>\<open>str.isspace\<close> on the code points below 256: TAB, LF, VT, FF, CR, FS, GS, RS, US,
      SPACE, NEL (0x85) and NBSP (0xA0).\<close>
  "is_space c = (let n = of_char c :: nat in
     (9 \<le> n \<and> n \<le> 13) \<or> (28 \<le> n \<and> n \<le> 32) \<or> n = 133 \<or> n = 160)"

definition lstrip :: "string \<Rightarrow> string" where
  "lstrip s = dropWhile is_space s"

definition rstrip :: "string \<Rightarrow> string" where
  "rstrip s = rev (dropWhile is_space (rev s))"

definition strip :: "string \<Rightarrow> string" where
  \<comment> \<open>\<open>s.strip()\<close>\<close>
  "strip s = rstrip (lstrip s)"

definition startswith :: "string \<Rightarrow> string \<Rightarrow> bool" where
  \<comment> \<open>\<open>s.startswith(p)\<close>\<close>
  "startswith s p = (take (length p) s = p)"

definition endswith :: "string \<Rightarrow> string \<Rightarrow> bool" where
  \<comment> \<open>\<open>s.endswith(p)\<close>\<close>
  "endswith s p = (length p \<le> length s \<and> drop (length s - length p) s = p)"

fun split_chr :: "char \<Rightarrow> string \<Rightarrow> string list" where
  \<comment> \<open>\<open>s.split(sep)\<close> for a one-character separator: every occurrence cuts, empty
      pieces are kept, and the empty string gives one empty piece.\<close>
  "split_chr sep [] = [[]]"
| "split_chr sep (c # cs) =
     (if c = sep then [] # split_chr sep cs
      else (case split_chr sep cs of p # ps \<Rightarrow> (c # p) # ps | [] \<Rightarrow> [[c]]))"

fun join :: "string \<Rightarrow> string list \<Rightarrow> string" where
  \<comment> \<open>\<open>sep.join(xs)\<close>\<close>
  "join sep [] = []"
| "join sep [x] = x"
| "join sep (x # y # ys) = x @ sep @ join sep (y # ys)"

fun replace_scan :: "string \<Rightarrow> string \<Rightarrow> string \<Rightarrow> string" where
  \<comment> \<open>left-to-right, non-overlapping replacement of a non-empty \<open>old\<close>\<close>
  "replace_scan old new [] = []"
| "replace_scan old new (c # cs) =
     (if startswith (c # cs) old then new @ replace_scan old new (drop (length old - 1) cs)
      else c # replace_scan old new cs)"

definition replace :: "string \<Rightarrow> string \<Rightarrow> string \<Rightarrow> string" where
  \<comment> \<open>\<open>s.replace(old, new)\<close>; an empty \<open>old\<close> matches before every character and at
      the end.\<close>
  "replace s old new =
     (if old = [] then new @ concat (map (\<lambda>c. c # new) s) else replace_scan old new s)"

section \<open>Fingerprints\<close>

definition hexdigit :: "nat \<Rightarrow> char" where
  "hexdigit d = ''0123456789abcdef'' ! d"

fun hex_digits :: "nat \<Rightarrow> string" where
  "hex_digits n = (if n < 16 then [hexdigit n] else hex_digits (n div 16) @ [hexdigit (n mod 16)])"

declare hex_digits.simps [simp del]

definition py_hex :: "int \<Rightarrow> string" where
  \<comment> \<open>the builtin \<open>hex\<close>\<close>
  "py_hex n = (if n < 0 then ''-0x'' @ hex_digits (nat (- n)) else ''0x'' @ hex_digits (nat n))"

definition rjust :: "nat \<Rightarrow> char \<Rightarrow> string \<Rightarrow> string" where
  \<comment> \<open>the format specification \<open>:0>16\<close> is \<open>rjust 16 CHR ''0''\<close>\<close>
  "rjust w fill s = replicate (w - length s) fill @ s"

type_synonym pyhash = "string \<Rightarrow> 64 word"
  \<comment> \<open>the builtin \<open>hash\<close> on \<open>str\<close> in the running interpreter: a signed 64-bit
      \<open>Py_hash_t\<close>, keyed by the interpreter's hash seed\<close>

definition trial_design_hash :: "pyhash \<Rightarrow> string \<Rightarrow> string" where
  \<comment> \<open>line 182: \<open>f"{hex(abs(hash(design)))[2:]:0>16}"\<close>\<close>
  "trial_design_hash h design = rjust 16 (CHR ''0'') (drop 2 (py_hex \<bar>sint (h design)\<bar>))"

definition equiv_design_hash :: "pyhash \<Rightarrow> string \<Rightarrow> string" where
  \<comment> \<open>line 83: \<open>hex(abs(hash(first_verilog)))[2:]\<close>\<close>
  "equiv_design_hash h first_verilog = drop 2 (py_hex \<bar>sint (h first_verilog)\<bar>)"

definition dec_digit :: "nat \<Rightarrow> char" where
  "dec_digit d = ''0123456789'' ! d"

fun dec_digits :: "nat \<Rightarrow> string" where
  \<comment> \<open>\<open>str(n)\<close> for a non-negative integer, as the f-string renders \<open>workload_id\<close>\<close>
  "dec_digits n = (if n < 10 then [dec_digit n] else dec_digits (n div 10) @ [dec_digit (n mod 10)])"

declare dec_digits.simps [simp del]

section \<open>Module renaming\<close>

definition is_digit :: "char \<Rightarrow> bool" where
  \<comment> \<open>the regular expression class \<open>\d\<close> on the code points below 256\<close>
  "is_digit c = (let n = of_char c :: nat in 48 \<le> n \<and> n \<le> 57)"

function rename_all_verismith_modules :: "string \<Rightarrow> string" where
  \<comment> \<open>\<open>re.sub(r"(module\d+)", r"\1_replacedname", verilog_str)\<close>: the leftmost match is
      taken at each position, \<open>\d+\<close> is greedy, and the scan resumes after the match\<close>
  "rename_all_verismith_modules [] = []"
| "rename_all_verismith_modules (c # cs) =
     (if startswith (c # cs) ''module'' \<and> takeWhile is_digit (drop 5 cs) \<noteq> []
      then ''module'' @ takeWhile is_digit (drop 5 cs) @ ''_replacedname''
             @ rename_all_verismith_modules (dropWhile is_digit (drop 5 cs))
      else c # rename_all_verismith_modules cs)"
  by pat_completeness auto
termination
proof (relation "measure length")
  fix c :: char and cs :: string
  have "length (dropWhile is_digit (drop 5 cs)) \<le> length (drop 5 cs)"
    by (rule length_dropWhile_le)
  then show "(dropWhile is_digit (drop 5 cs), c # cs) \<in> measure length"
    by simp
qed simp_all

section \<open>Errors\<close>

datatype error =
    AssertionError      \<comment> \<open>a failed \<open>assert\<close>\<close>
  | CellsNotFound       \<comment> \<open>the \<open>Exception\<close> raised at line 74\<close>
  | ValueError          \<comment> \<open>\<open>int\<close> of a malformed literal\<close>
  | IndexError
  | FileNotFoundError
  | NameError           \<comment> \<open>a local variable read before assignment\<close>

section \<open>The cell-count adapter\<close>

definition digits_value :: "string \<Rightarrow> int" where
  "digits_value ds = foldl (\<lambda>a c. 10 * a + (int (of_char c) - 48)) 0 ds"

definition py_int_digits :: "string \<Rightarrow> int option" where
  \<comment> \<open>digit groups separated by single underscores\<close>
  "py_int_digits s =
     (let groups = split_chr (CHR ''_'') s in
      if list_all (\<lambda>g. g \<noteq> [] \<and> list_all is_digit g) groups
      then Some (digits_value (concat groups)) else None)"

definition py_int :: "string \<Rightarrow> int option" where
  \<comment> \<open>\<open>int(s)\<close> in base 10: surrounding whitespace, an optional sign, then digits;
      \<open>None\<close> stands for the \<open>ValueError\<close>\<close>
  "py_int s =
     (case strip s of
        [] \<Rightarrow> None
      | c # cs \<Rightarrow>
          if c = CHR ''-'' then map_option uminus (py_int_digits cs)
          else if c = CHR ''+'' then py_int_digits cs
          else py_int_digits (c # cs))"

definition get_num_cells :: "string \<Rightarrow> error + int" where
  \<comment> \<open>\<open>__get_num_cells\<close> applied to the standard output of the statistics run\<close>
  "get_num_cells stdout =
     (let stdout_lines = map strip (split_chr (CHR 0x0A) stdout) in
      case find (\<lambda>l. startswith l ''Number of cells:'') (rev stdout_lines) of
        None \<Rightarrow> Inl CellsNotFound
      | Some l \<Rightarrow>
          (case split_chr (CHR '':'') l of
             _ # x # _ \<Rightarrow> (case py_int (strip x) of None \<Rightarrow> Inl ValueError | Some n \<Rightarrow> Inr n)
           | _ \<Rightarrow> Inl IndexError))"

section \<open>The equivalence-wrapper builder (the text part of \<open>check_equiv\<close>)\<close>

definition first_file_transformed_content :: "string \<Rightarrow> string" where
  \<comment> \<open>line 85\<close>
  "first_file_transformed_content first_verilog =
     replace first_verilog ''module top'' ''module top_first''"

definition second_file_transformed_content :: "string \<Rightarrow> string" where
  \<comment> \<open>lines 91 and 93\<close>
  "second_file_transformed_content second_verilog =
     replace (rename_all_verismith_modules second_verilog) ''module top'' ''module top_second''"

fun first_index :: "('a \<Rightarrow> bool) \<Rightarrow> 'a list \<Rightarrow> nat option" where
  \<comment> \<open>\<open>for i, line in enumerate(xs): if P(line): id = i; break\<close>, \<open>None\<close> when no line matches\<close>
  "first_index P [] = None"
| "first_index P (x # xs) = (if P x then Some 0 else map_option Suc (first_index P xs))"

definition top_first_line_id :: "string list \<Rightarrow> nat option" where
  \<comment> \<open>lines 100 to 104\<close>
  "top_first_line_id first_file_lines =
     first_index (\<lambda>line. startswith (strip line) ''module top_first'') first_file_lines"

fun collect_input_wire_lines :: "string list \<Rightarrow> string list" where
  \<comment> \<open>the loop of lines 107 to 112\<close>
  "collect_input_wire_lines [] = []"
| "collect_input_wire_lines (line # rest) =
     (let stripped_line = strip line in
      if startswith stripped_line ''endmodule'' then []
      else if startswith stripped_line ''input'' then strip line # collect_input_wire_lines rest
      else collect_input_wire_lines rest)"

definition input_wire_lines :: "string list \<Rightarrow> string list" where
  \<comment> \<open>\<open>first_file_lines[top_first_line_id:]\<close> is the whole list when the id is \<open>None\<close>\<close>
  "input_wire_lines first_file_lines =
     collect_input_wire_lines
       (case top_first_line_id first_file_lines of
          None \<Rightarrow> first_file_lines
        | Some i \<Rightarrow> drop i first_file_lines)"

definition wire_dimensions :: "string \<Rightarrow> string list" where
  \<comment> \<open>line 120: \<open>splitted_line[:-1]\<close>\<close>
  "wire_dimensions input_line = butlast (split_chr (CHR '' '') input_line)"

definition wire_name :: "string \<Rightarrow> string" where
  \<comment> \<open>line 121: \<open>splitted_line[-1][:-1]\<close>; the split is never empty\<close>
  "wire_name input_line = butlast (last (split_chr (CHR '' '') input_line))"

definition input_wire_names :: "string list \<Rightarrow> string list" where
  "input_wire_names first_file_lines = map wire_name (input_wire_lines first_file_lines)"

definition output_wire_line_id :: "string list \<Rightarrow> nat option" where
  \<comment> \<open>lines 126 to 130\<close>
  "output_wire_line_id first_file_lines =
     first_index (\<lambda>line. startswith (strip line) ''output wire'') first_file_lines"

definition port_bindings :: "string list \<Rightarrow> string" where
  \<comment> \<open>\<open>', '.join(map(lambda s: '.'+s, input_wire_names))\<close>\<close>
  "port_bindings names = join '', '' (map (\<lambda>s. ''.'' @ s) names)"

definition new_top_lines :: "string \<Rightarrow> error + string list" where
  \<comment> \<open>lines 99 to 144, from the transformed text of the first design\<close>
  "new_top_lines first_content =
     (let first_file_lines = split_chr (CHR 0x0A) first_content;
          names = input_wire_names first_file_lines
      in case output_wire_line_id first_file_lines of
           None \<Rightarrow> Inl AssertionError
         | Some i \<Rightarrow>
             (let output_wire_line = strip (first_file_lines ! i) in
              if \<not> (startswith output_wire_line ''output wire'' \<and> endswith output_wire_line ''y;'')
              then Inl AssertionError
              else Inr
                ([''module top_equiv (y_a, y_b, '' @ join '', '' names @ '');'',
                  replace output_wire_line ''y;'' ''y_a;'',
                  replace output_wire_line ''y;'' ''y_b;'']
                 @ input_wire_lines first_file_lines
                 @ [''top_first top_first_inst (.y(y_a), '' @ port_bindings names @ '');'',
                    ''top_second top_second_inst (.y(y_b), '' @ port_bindings names @ '');'',
                    ''endmodule''])))"

section \<open>The world of one run: registry, scratch files, signals, external tools\<close>

datatype signal = SIGTERM | SIGKILL

record world =
  set_of_design_hashes :: "string list"   \<comment> \<open>the managed list shared by all workers\<close>
  files :: "string \<rightharpoonup> string"             \<comment> \<open>path to content\<close>
  signals :: "(nat \<times> signal) list"        \<comment> \<open>every \<open>os.kill(pid, sig)\<close>, in order\<close>

datatype communicate =
    Returned real        \<comment> \<open>\<open>communicate\<close> came back in time; the argument is \<open>end_time\<close>\<close>
  | TimeoutExpired

record process =
  pid :: nat
  start_time :: real
  outcome :: communicate

text \<open>
  The external programs are inputs of the model: what the generator prints is the supply
  list of \<open>acquire_loop\<close> below, and the three Yosys scripts are functions of the texts they
  read. Progress lines printed to standard output are not modelled.
\<close>

record env =
  pyhash :: pyhash
  yosys_stats :: "string \<Rightarrow> string"                    \<comment> \<open>design text to standard output\<close>
  yosys_synth :: "string \<Rightarrow> string option \<times> string"    \<comment> \<open>design text to output file (if written) and log\<close>
  yosys_equiv :: "string \<Rightarrow> string \<Rightarrow> string \<Rightarrow> process"  \<comment> \<open>first, second, top\<close>

datatype pynum = PyInt int | PyFloat real

definition MAX_NUM_CELLS :: int where
  "MAX_NUM_CELLS = 10000"

definition TIMEOUT_SECONDS :: int where
  "TIMEOUT_SECONDS = 5"

definition write_file :: "string \<Rightarrow> string \<Rightarrow> world \<Rightarrow> world" where
  "write_file path content w = w\<lparr>files := (files w)(path \<mapsto> content)\<rparr>"

definition synthesize_design :: "env \<Rightarrow> string \<Rightarrow> string \<Rightarrow> string \<Rightarrow> world \<Rightarrow> world" where
  \<comment> \<open>Yosys reads \<open>VERILOG_INPUT\<close>, writes the log and, when it gets that far,
      \<open>VERILOG_OUTPUT\<close>; its exit status is not looked at\<close>
  "synthesize_design E verilog_input_filepath verilog_output_filepath log_name w =
     (case files w verilog_input_filepath of
        None \<Rightarrow> w
      | Some src \<Rightarrow>
          (case yosys_synth E src of
             (None, lg) \<Rightarrow> write_file log_name lg w
           | (Some out, lg) \<Rightarrow> write_file verilog_output_filepath out (write_file log_name lg w)))"

definition check_equiv ::
  "env \<Rightarrow> string \<Rightarrow> string \<Rightarrow> world \<Rightarrow> (error + pynum option) \<times> world" where
  \<comment> \<open>the result \<open>None\<close> is Python's \<open>None\<close>\<close>
  "check_equiv E first_filepath second_filepath w =
     (case files w first_filepath of
        None \<Rightarrow> (Inl FileNotFoundError, w)
      | Some first_verilog \<Rightarrow>
     (case files w second_filepath of
        None \<Rightarrow> (Inl FileNotFoundError, w)
      | Some second_verilog \<Rightarrow>
     (let design_hash = equiv_design_hash (pyhash E) first_verilog;
          target_first_filepath = ''tmp/prepared_for_equiv/equiv_'' @ design_hash @ ''_0.v'';
          first_content = first_file_transformed_content first_verilog;
          w1 = write_file target_first_filepath first_content w;
          target_second_filepath = ''tmp/prepared_for_equiv/equiv_'' @ design_hash @ ''_1.v'';
          second_content = second_file_transformed_content second_verilog;
          w2 = write_file target_second_filepath second_content w1
      in case new_top_lines first_content of
           Inl e \<Rightarrow> (Inl e, w2)
         | Inr top_lines \<Rightarrow>
             (let target_top_filepath = ''tmp/prepared_for_equiv/equiv_'' @ design_hash @ ''_top.v'';
                  top_content = join [CHR 0x0A] top_lines;
                  w3 = write_file target_top_filepath top_content w2;
                  p = yosys_equiv E first_content second_content top_content
              in case outcome p of
                   Returned end_time \<Rightarrow> (Inr (Some (PyFloat (end_time - start_time p))), w3)
                 | TimeoutExpired \<Rightarrow>
                     (Inr None, w3\<lparr>signals := signals w3 @ [(pid p, SIGKILL)]\<rparr>)))))"

section \<open>The design registry\<close>

definition try_register :: "string \<Rightarrow> string list \<Rightarrow> bool \<times> string list" where
  \<comment> \<open>the block under \<open>with lock\<close>, lines 183 to 187: the membership test and the append
      happen while the lock is held, so one call is one atomic step on the shared list\<close>
  "try_register design_hash hashes =
     (if design_hash \<in> set hashes then (False, hashes)
      else (True, hashes @ [design_hash]))"

fun register_all :: "(nat \<times> string) list \<Rightarrow> string list \<Rightarrow> bool list \<times> string list" where
  \<comment> \<open>the attempts of all workers in the order in which they take the lock; each attempt
      is the worker and its fingerprint\<close>
  "register_all [] hashes = ([], hashes)"
| "register_all ((worker, design_hash) # rest) hashes =
     (case try_register design_hash hashes of
        (accepted, hashes') \<Rightarrow>
          (case register_all rest hashes' of
             (results, final) \<Rightarrow> (accepted # results, final)))"

section \<open>The trial executor\<close>

record locals =
  num_cells :: "int option"          \<comment> \<open>\<open>None\<close> is Python's \<open>None\<close>\<close>
  design :: "string option"          \<comment> \<open>for the three below, \<open>None\<close> is: not assigned yet\<close>
  design_hash :: "string option"
  path_to_design :: "string option"

definition design_path :: "nat \<Rightarrow> string \<Rightarrow> string" where
  \<comment> \<open>line 189\<close>
  "design_path workload_id dh =
     ''tmp/designs/design_'' @ dec_digits workload_id @ ''_'' @ dh @ ''.v''"

definition synthesized_path :: "nat \<Rightarrow> string \<Rightarrow> string" where
  \<comment> \<open>line 195\<close>
  "synthesized_path workload_id dh =
     ''tmp/designs/design_synthesized_'' @ dec_digits workload_id @ ''_'' @ dh @ ''.v''"

definition synth_log_path :: "nat \<Rightarrow> string \<Rightarrow> string" where
  \<comment> \<open>line 196\<close>
  "synth_log_path workload_id dh =
     ''tmp/logs/synth_'' @ dec_digits workload_id @ ''_'' @ dh @ ''.log''"

text \<open>
  The \<open>while\<close> loop of lines 180 to 192. Each element of the supply is one pass through
  the body: the fingerprints that other workers registered since this worker last held the
  lock, and the design that \<open>gen_design\<close> returns. The loop has no bound of its own, so the
  result is \<open>None\<close> when the supply ends while the loop condition still holds.
\<close>

definition while_condition :: "locals \<Rightarrow> bool" where
  \<comment> \<open>line 180: \<open>num_cells is None or num_cells > MAX_NUM_CELLS\<close>\<close>
  "while_condition l = (case num_cells l of None \<Rightarrow> True | Some n \<Rightarrow> n > MAX_NUM_CELLS)"

fun acquire_loop ::
  "env \<Rightarrow> nat \<Rightarrow> (string list \<times> string) list \<Rightarrow> locals \<Rightarrow> world
     \<Rightarrow> ((error + locals) \<times> world) option" where
  "acquire_loop E workload_id supply l w =
     (if while_condition l then
        (case supply of
           [] \<Rightarrow> None
         | (others, d) # supply' \<Rightarrow>
             (let dh = trial_design_hash (pyhash E) d;
                  l1 = l\<lparr>design := Some d, design_hash := Some dh\<rparr>;
                  w0 = w\<lparr>set_of_design_hashes := set_of_design_hashes w @ others\<rparr>
              in case try_register dh (set_of_design_hashes w0) of
                   (False, _) \<Rightarrow> acquire_loop E workload_id supply' l1 w0
                 | (True, hashes') \<Rightarrow>
                     (let w1 = w0\<lparr>set_of_design_hashes := hashes'\<rparr>;
                          p = design_path workload_id dh;
                          l2 = l1\<lparr>path_to_design := Some p\<rparr>;
                          w2 = write_file p d w1
                      in case get_num_cells (yosys_stats E d) of
                           Inl e \<Rightarrow> Some (Inl e, w2)
                         | Inr n \<Rightarrow>
                             acquire_loop E workload_id supply' (l2\<lparr>num_cells := Some n\<rparr>) w2)))
      else Some (Inr l, w))"

declare acquire_loop.simps [simp del]

definition initial_locals :: locals where
  "initial_locals = \<lparr>num_cells = None, design = None, design_hash = None, path_to_design = None\<rparr>"

definition test_new_design ::
  "env \<Rightarrow> (string list \<times> string) list \<Rightarrow> nat \<Rightarrow> world
     \<Rightarrow> ((error + int \<times> pynum option) \<times> world) option" where
  "test_new_design E supply workload_id w =
     (case acquire_loop E workload_id supply initial_locals w of
        None \<Rightarrow> None
      | Some (Inl e, w1) \<Rightarrow> Some (Inl e, w1)
      | Some (Inr l, w1) \<Rightarrow>
          (case (num_cells l, design_hash l, path_to_design l) of
             (Some n, Some dh, Some p) \<Rightarrow>
               (let path_to_design_synthesized = synthesized_path workload_id dh;
                    w2 = synthesize_design E p path_to_design_synthesized
                           (synth_log_path workload_id dh) w1
                in case check_equiv E p path_to_design_synthesized w2 of
                     (Inl e, w3) \<Rightarrow> Some (Inl e, w3)
                   | (Inr check_duration, w3) \<Rightarrow>
                       Some (Inr (n, if check_duration = None then Some (PyInt TIMEOUT_SECONDS)
                                     else check_duration), w3))
           | _ \<Rightarrow> Some (Inl NameError, w1)))"

section \<open>The trial scheduler\<close>

text \<open>
  Modelled from the spec: the worker pool behind \<open>pool.starmap\<close> (lines 208 and 209) is
  the standard library's \<open>multiprocessing.Pool\<close>, which is not part of the repository. The
  spec describes it as a fixed number of concurrently executing slots that run the trials,
  block until all of them complete, and collect the results, in completion order, into one
  list indexed by workload id; a trial that raises makes the whole batch fail.

  A schedule is the sequence of starts and completions as they happen. \<open>trial i\<close> is what
  the trial executor returns for workload id \<open>i\<close> in that run.
\<close>

datatype event = Start nat | Finish nat

record 'r scheduler =
  pending :: "nat list"          \<comment> \<open>workload ids not started yet\<close>
  active :: "nat list"           \<comment> \<open>workload ids occupying a worker\<close>
  slots :: "'r option list"      \<comment> \<open>the result list, indexed by workload id\<close>
  failure :: "error option"      \<comment> \<open>the first exception that arrived\<close>

definition scheduler_init :: "nat \<Rightarrow> 'r scheduler" where
  \<comment> \<open>the tasks are \<open>(set_of_design_hashes, lock, i) for i in range(num_workloads)\<close>\<close>
  "scheduler_init num_workloads =
     \<lparr>pending = [0..<num_workloads], active = [],
      slots = replicate num_workloads None, failure = None\<rparr>"

fun scheduler_step ::
  "nat \<Rightarrow> (nat \<Rightarrow> error + 'r) \<Rightarrow> event \<Rightarrow> 'r scheduler \<Rightarrow> 'r scheduler option" where
  "scheduler_step num_processes trial (Start i) s =
     (if i \<in> set (pending s) \<and> length (active s) < num_processes
      then Some (s\<lparr>pending := removeAll i (pending s), active := i # active s\<rparr>)
      else None)"
| "scheduler_step num_processes trial (Finish i) s =
     (if i \<in> set (active s) then
        (case trial i of
           Inr r \<Rightarrow> Some (s\<lparr>active := removeAll i (active s), slots := (slots s)[i := Some r]\<rparr>)
         | Inl e \<Rightarrow>
             Some (s\<lparr>active := removeAll i (active s),
                     failure := (case failure s of None \<Rightarrow> Some e | Some e0 \<Rightarrow> Some e0)\<rparr>))
      else None)"

fun scheduler_run ::
  "nat \<Rightarrow> (nat \<Rightarrow> error + 'r) \<Rightarrow> event list \<Rightarrow> 'r scheduler \<Rightarrow> 'r scheduler option" where
  "scheduler_run num_processes trial [] s = Some s"
| "scheduler_run num_processes trial (ev # evs) s =
     (case scheduler_step num_processes trial ev s of
        None \<Rightarrow> None
      | Some s' \<Rightarrow> scheduler_run num_processes trial evs s')"

definition starmap ::
  "nat \<Rightarrow> (nat \<Rightarrow> error + 'r) \<Rightarrow> nat \<Rightarrow> event list \<Rightarrow> (error + 'r list) option" where
  \<comment> \<open>\<open>None\<close>: the schedule is not one of this pool, or trials are still pending or
      running at its end, so the call has not returned\<close>
  "starmap num_processes trial num_workloads schedule =
     (case scheduler_run num_processes trial schedule (scheduler_init num_workloads) of
        None \<Rightarrow> None
      | Some s \<Rightarrow>
          if pending s = [] \<and> active s = [] then
            (case failure s of
               Some e \<Rightarrow> Some (Inl e)
             | None \<Rightarrow> map_option Inr (those (slots s)))
          else None)"

section \<open>Notions used to state the properties\<close>

function module_occurrences :: "string \<Rightarrow> (string \<times> string) list" where
  \<comment> \<open>the matches of \<open>module\d+\<close> that the scan of \<open>rename_all_verismith_modules\<close> visits,
      from left to right, each with the text that follows it\<close>
  "module_occurrences [] = []"
| "module_occurrences (c # cs) =
     (if startswith (c # cs) ''module'' \<and> takeWhile is_digit (drop 5 cs) \<noteq> []
      then (''module'' @ takeWhile is_digit (drop 5 cs), dropWhile is_digit (drop 5 cs))
             # module_occurrences (dropWhile is_digit (drop 5 cs))
      else module_occurrences cs)"
  by pat_completeness auto
termination
proof (relation "measure length")
  fix c :: char and cs :: string
  have "length (dropWhile is_digit (drop 5 cs)) \<le> length (drop 5 cs)"
    by (rule length_dropWhile_le)
  then show "(dropWhile is_digit (drop 5 cs), c # cs) \<in> measure length"
    by simp
qed simp_all

definition is_output_declaration :: "string \<Rightarrow> bool" where
  \<comment> \<open>the pattern asserted at line 134, on a line of the design\<close>
  "is_output_declaration line =
     (startswith (strip line) ''output wire'' \<and> endswith (strip line) ''y;'')"

definition collected :: "(nat \<Rightarrow> error + 'r) \<Rightarrow> nat \<Rightarrow> 'r scheduler \<Rightarrow> bool" where
  \<comment> \<open>the invariant of the scheduler: a trial that is neither pending nor running has
      delivered its outcome\<close>
  "collected trial n s \<longleftrightarrow>
     length (slots s) = n \<and>
     (\<forall>i<n. i \<notin> set (pending s) \<union> set (active s) \<longrightarrow>
        (\<forall>r. trial i = Inr r \<longrightarrow> slots s ! i = Some r) \<and>
        (\<forall>e. trial i = Inl e \<longrightarrow> failure s \<noteq> None)) \<and>
     (\<forall>i \<in> set (pending s) \<union> set (active s). i < n)"

definition one_by_one :: "nat \<Rightarrow> nat \<Rightarrow> event list" where
  \<comment> \<open>the schedule that runs the trials \<open>k\<close> to \<open>n - 1\<close> one after the other\<close>
  "one_by_one k n = concat (map (\<lambda>i. [Start i, Finish i]) [k..<n])"

section \<open>Concrete inputs for the examples\<close>

text \<open>
  Two small designs, tools that report 10001 cells for the larger one and 10000 for any
  other, a synthesis that returns its input, and an equivalence check that never returns in
  time.
\<close>

definition demo_small :: string where
  "demo_small = ''module top (y, a);'' @ [CHR 0x0A] @ ''output wire y;'' @ [CHR 0x0A]
     @ ''input wire a;'' @ [CHR 0x0A] @ ''endmodule''"

definition demo_big :: string where
  "demo_big = ''module top (y, a, b);'' @ [CHR 0x0A] @ ''output wire y;'' @ [CHR 0x0A]
     @ ''input wire a;'' @ [CHR 0x0A] @ ''input wire b;'' @ [CHR 0x0A] @ ''endmodule''"

definition demo_env :: env where
  "demo_env =
     \<lparr>pyhash = (\<lambda>s. of_nat (length s)),
      yosys_stats = (\<lambda>d. if d = demo_big then ''Number of cells: 10001''
                          else ''Number of cells: 10000''),
      yosys_synth = (\<lambda>d. (Some d, ''done'')),
      yosys_equiv = (\<lambda>a b c. \<lparr>pid = 4242, start_time = 0, outcome = TimeoutExpired\<rparr>)\<rparr>"

definition demo_world :: world where
  "demo_world =
     \<lparr>set_of_design_hashes = [],
      files = [''a.v'' \<mapsto> demo_small, ''b.v'' \<mapsto> demo_small],
      signals = []\<rparr>"

definition demo_feed :: "(string list \<times> string) list" where
  "demo_feed = [([], demo_big), ([], demo_big), ([], demo_small)]"


definition demo_taken_feed :: "(string list \<times> string) list" where
  "demo_taken_feed =
     [([trial_design_hash (pyhash demo_env) demo_big], demo_big), ([], demo_small)]"

definition demo_two_outputs :: string where
  "demo_two_outputs = ''module top (y, z, a);'' @ [CHR 0x0A] @ ''output wire z;'' @ [CHR 0x0A]
     @ ''output wire y;'' @ [CHR 0x0A] @ ''input wire a;'' @ [CHR 0x0A] @ ''endmodule''"

definition demo_swapped :: string where
  "demo_swapped = ''module top (y, a, b);'' @ [CHR 0x0A] @ ''output wire y;'' @ [CHR 0x0A]
     @ ''input wire b;'' @ [CHR 0x0A] @ ''input wire a;'' @ [CHR 0x0A] @ ''endmodule''"

definition demo_inputs :: "string list" where
  "demo_inputs = [''input wire a;'', ''input wire b;'']"

definition demo_header :: "string list" where
  "demo_header = [''module top_first (y, a, b);'', ''output wire y;'']"

definition demo_big_top :: "string list" where
  "demo_big_top =
     [''module top_equiv (y_a, y_b, a, b);'', ''output wire y_a;'', ''output wire y_b;'',
      ''input wire a;'', ''input wire b;'', ''top_first top_first_inst (.y(y_a), .a, .b);'',
      ''top_second top_second_inst (.y(y_b), .a, .b);'', ''endmodule'']"

definition demo_swapped_top :: "string list" where
  "demo_swapped_top =
     [''module top_equiv (y_a, y_b, b, a);'', ''output wire y_a;'', ''output wire y_b;'',
      ''input wire b;'', ''input wire a;'', ''top_first top_first_inst (.y(y_a), .b, .a);'',
      ''top_second top_second_inst (.y(y_b), .b, .a);'', ''endmodule'']"

definition matches_here :: "string \<Rightarrow> bool" where
  \<comment> \<open>the pattern \<open>module\d+\<close> matches at the start of the text\<close>
  "matches_here t \<longleftrightarrow> startswith t ''module'' \<and> takeWhile is_digit (drop 6 t) \<noteq> []"

definition demo_modules :: string where
  "demo_modules = ''module module7 (y);'' @ [CHR 0x0A] @ ''endmodule'' @ [CHR 0x0A]
     @ ''module top (y);'' @ [CHR 0x0A] @ ''module7 m (y);'' @ [CHR 0x0A] @ ''endmodule''"

definition demo_hash_a :: pyhash where
  "demo_hash_a s = of_nat (length s)"

definition demo_hash_b :: pyhash where
  "demo_hash_b s = of_nat (length s) + 1"

definition hex_digit_value :: "char \<Rightarrow> nat" where
  "hex_digit_value c = (if is_digit c then of_char c - 48 else of_char c - 87)"

definition hex_value :: "string \<Rightarrow> nat" where
  \<comment> \<open>the number that a string of hexadecimal digits denotes\<close>
  "hex_value s = foldl (\<lambda>a c. 16 * a + hex_digit_value c) 0 s"

section \<open>Width of the fingerprint\<close>

lemma length_hex_digits: "0 < k \<Longrightarrow> n < 16 ^ k \<Longrightarrow> length (hex_digits n) \<le> k"
proof (induction k arbitrary: n)
  case 0
  then show ?case by simp
next
  case (Suc k)
  show ?case
  proof (cases "n < 16")
    case True
    then show ?thesis by (simp add: hex_digits.simps [of n])
  next
    case False
    then have k: "0 < k" using Suc.prems by (cases k) auto
    have "n div 16 < 16 ^ k"
      using Suc.prems by (simp add: less_mult_imp_div_less mult.commute)
    from Suc.IH [OF k this] False show ?thesis
      by (simp add: hex_digits.simps [of n])
  qed
qed

lemma abs_sint_bound: "\<bar>sint (x :: 64 word)\<bar> \<le> 2 ^ 63"
  using sint_lt [of x] sint_ge [of x] by simp

lemma length_hash_digits: "length (hex_digits (nat \<bar>sint (x :: 64 word)\<bar>)) \<le> 16"
proof -
  have "nat \<bar>sint x\<bar> < 16 ^ 16"
    using abs_sint_bound [of x] by (simp add: nat_less_iff)
  then show ?thesis
    by (intro length_hex_digits) simp_all
qed

lemma length_trial_hash: "length (trial_design_hash h d) = 16"
  using length_hash_digits [of "h d"]
  by (simp add: trial_design_hash_def py_hex_def rjust_def)

text \<open>
  C10. For every design text and every hash function of the interpreter, the fingerprint
  computed by the trial executor has exactly 16 characters: the absolute value of the
  signed 64-bit hash is at most \<open>2 ^ 63\<close>, its hexadecimal digits (the rendering of
  \<open>hex\<close> without the \<open>0x\<close>) are at most 16, and the padding with zeros fills the width.
\<close>

theorem fingerprint_has_16_characters:
  "length (trial_design_hash h src) = 16
   \<and> length (drop 2 (py_hex \<bar>sint (h src)\<bar>)) \<le> 16
   \<and> \<bar>sint (h src)\<bar> \<le> 2 ^ 63"
  using length_trial_hash [of h src] length_hash_digits [of "h src"]
    abs_sint_bound [of "h src"]
  by (simp add: py_hex_def)

section \<open>Deduplication by the registry\<close>

lemma try_register_set: "set (snd (try_register fp hs)) = insert fp (set hs)"
  by (auto simp: try_register_def)

lemma try_register_distinct: "distinct hs \<Longrightarrow> distinct (snd (try_register fp hs))"
  by (auto simp: try_register_def)

lemma register_all_Cons:
  "register_all ((worker, fp) # rest) hs =
     (fst (try_register fp hs) # fst (register_all rest (snd (try_register fp hs))),
      snd (register_all rest (snd (try_register fp hs))))"
  by (simp split: prod.splits)

lemma register_all_final:
  "set (snd (register_all attempts hs)) = set hs \<union> snd ` set attempts"
proof (induction attempts arbitrary: hs)
  case Nil
  then show ?case by simp
next
  case (Cons a attempts)
  obtain worker fp where a: "a = (worker, fp)" by (cases a)
  show ?case
    using Cons.IH [of "snd (try_register fp hs)"]
    by (auto simp: a try_register_set register_all_Cons simp del: register_all.simps)
qed

lemma register_all_distinct:
  "distinct hs \<Longrightarrow> distinct (snd (register_all attempts hs))"
proof (induction attempts arbitrary: hs)
  case Nil
  then show ?case by simp
next
  case (Cons a attempts)
  obtain worker fp where a: "a = (worker, fp)" by (cases a)
  show ?case
    using Cons.IH [of "snd (try_register fp hs)"] try_register_distinct [OF Cons.prems, of fp]
    by (simp add: a register_all_Cons del: register_all.simps)
qed

lemma register_all_count:
  "length (filter id (fst (register_all attempts hs))) = card (snd ` set attempts - set hs)"
proof (induction attempts arbitrary: hs)
  case Nil
  then show ?case by simp
next
  case (Cons a attempts)
  obtain worker fp where a: "a = (worker, fp)" by (cases a)
  show ?case
  proof (cases "fp \<in> set hs")
    case True
    then have "snd ` set (a # attempts) - set hs = snd ` set attempts - set hs"
      by (auto simp: a)
    with True Cons.IH [of hs] show ?thesis
      by (simp add: a try_register_def register_all_Cons del: register_all.simps)
  next
    case False
    have fin: "finite (snd ` set attempts - insert fp (set hs))" by simp
    have "snd ` set (a # attempts) - set hs = insert fp (snd ` set attempts - insert fp (set hs))"
      using False by (auto simp: a)
    then have "card (snd ` set (a # attempts) - set hs) = Suc (card (snd ` set attempts - insert fp (set hs)))"
      using fin by simp
    with False Cons.IH [of "hs @ [fp]"] show ?thesis
      by (simp add: a try_register_def register_all_Cons del: register_all.simps)
  qed
qed

lemma register_all_nth:
  "i < length attempts \<Longrightarrow>
   fst (register_all attempts hs) ! i
     = (snd (attempts ! i) \<notin> set hs \<union> snd ` set (take i attempts))"
proof (induction attempts arbitrary: hs i)
  case Nil
  then show ?case by simp
next
  case (Cons a attempts)
  obtain worker fp where a: "a = (worker, fp)" by (cases a)
  show ?case
  proof (cases i)
    case 0
    then show ?thesis by (simp add: a try_register_def register_all_Cons del: register_all.simps)
  next
    case (Suc j)
    then have j: "j < length attempts" using Cons.prems by simp
    show ?thesis
      using Cons.IH [OF j, of "snd (try_register fp hs)"]
      by (simp add: a Suc try_register_set register_all_Cons del: register_all.simps)
  qed
qed

lemma register_all_length: "length (fst (register_all attempts hs)) = length attempts"
  by (induction attempts arbitrary: hs) (auto simp: register_all_Cons simp del: register_all.simps(2))

text \<open>
  C1. The lock makes every registration attempt one atomic step, so the attempts of any
  number of workers form one sequence, in the order in which the lock is taken. From the
  empty registry, an attempt is accepted exactly when its fingerprint did not occur in an
  earlier attempt; a rejected attempt leaves the registry as it was; the number of accepted
  attempts is the number of distinct fingerprints attempted, and the registry ends up
  holding each of them once.
\<close>

theorem each_fingerprint_accepted_once:
  "length (fst (register_all attempts [])) = length attempts
   \<and> length (filter id (fst (register_all attempts []))) = card (snd ` set attempts)
   \<and> (\<forall>i < length attempts.
         fst (register_all attempts []) ! i = (snd (attempts ! i) \<notin> snd ` set (take i attempts)))
   \<and> set (snd (register_all attempts [])) = snd ` set attempts
   \<and> distinct (snd (register_all attempts []))
   \<and> (\<forall>fp hashes. \<not> fst (try_register fp hashes) \<longrightarrow> snd (try_register fp hashes) = hashes)
   \<and> (\<forall>fp hashes. fst (try_register fp hashes) = (fp \<notin> set hashes))"
  using register_all_count [of attempts "[]"] register_all_final [of attempts "[]"]
    register_all_distinct [of "[]" attempts] register_all_nth [of _ attempts "[]"]
    register_all_length [of attempts "[]"]
  by (auto simp: try_register_def)

theorem each_fingerprint_accepted_once_witness:
  "register_all [(0, ''a''), (1, ''b''), (1, ''a''), (0, ''c''), (2, ''b'')] []
     = ([True, True, False, True, False], [''a'', ''b'', ''c''])
   \<and> length (filter id [True, True, False, True, False])
     = card (snd ` set [(0 :: nat, ''a''), (1, ''b''), (1, ''a''), (0, ''c''), (2, ''b'')])
   \<and> fst (register_all [(0, ''a''), (1, ''b''), (1, ''a''), (0, ''c''), (2, ''b'')] []) ! 2
     = (snd ([(0 :: nat, ''a''), (1, ''b''), (1, ''a''), (0, ''c''), (2, ''b'')] ! 2)
          \<notin> snd ` set (take 2 [(0 :: nat, ''a''), (1, ''b''), (1, ''a''), (0, ''c''), (2, ''b'')]))
   \<and> snd (try_register ''a'' [''a'', ''b'']) = [''a'', ''b'']"
  using each_fingerprint_accepted_once [of "[(0, ''a''), (1, ''b''), (1, ''a''), (0, ''c''), (2, ''b'')]"]
  by (simp add: try_register_def)

section \<open>Order of the results\<close>

lemma collected_init: "collected trial n (scheduler_init n)"
  by (auto simp: collected_def scheduler_init_def)

lemma collected_step:
  assumes "collected trial n s" and "scheduler_step W trial ev s = Some s'"
  shows "collected trial n s'"
proof (cases ev)
  case (Start i)
  with assms show ?thesis
    by (auto simp: collected_def split: if_splits)
next
  case (Finish i)
  show ?thesis
  proof (cases "trial i")
    case (Inl e)
    with assms Finish show ?thesis
      by (auto simp: collected_def split: if_splits sum.splits option.splits)
  next
    case (Inr r)
    with assms Finish show ?thesis
      by (auto simp: collected_def nth_list_update split: if_splits sum.splits)
  qed
qed

lemma collected_run:
  "collected trial n s \<Longrightarrow> scheduler_run W trial evs s = Some s' \<Longrightarrow> collected trial n s'"
proof (induction evs arbitrary: s)
  case Nil
  then show ?case by simp
next
  case (Cons ev evs)
  then show ?case
    by (auto split: option.splits dest: collected_step)
qed

lemma those_Some_nth:
  "those xs = Some rs \<Longrightarrow> length rs = length xs \<and> (\<forall>i<length xs. xs ! i = Some (rs ! i))"
proof (induction xs arbitrary: rs)
  case Nil
  then show ?case by simp
next
  case (Cons x xs)
  then show ?case
    by (auto split: option.splits simp: nth_Cons split: nat.splits)
qed

lemma those_all_Some:
  "(\<forall>i<length xs. xs ! i = Some (f i)) \<Longrightarrow> those xs = Some (map f [0..<length xs])"
proof (induction xs arbitrary: f)
  case Nil
  then show ?case by simp
next
  case (Cons x xs)
  have x: "x = Some (f 0)" using Cons.prems by auto
  have "\<forall>i<length xs. xs ! i = Some ((f \<circ> Suc) i)" using Cons.prems by auto
  from Cons.IH [OF this] have "those xs = Some (map (f \<circ> Suc) [0..<length xs])" .
  then show ?case
    by (simp add: x upt_conv_Cons map_Suc_upt [symmetric] del: upt_Suc)
qed

lemma starmap_ordered:
  assumes "starmap W trial n schedule = Some (Inr rs)"
  shows "length rs = n \<and> (\<forall>i<n. trial i = Inr (rs ! i))"
proof -
  from assms obtain s where run: "scheduler_run W trial schedule (scheduler_init n) = Some s"
    and idle: "pending s = []" "active s = []" and ok: "failure s = None"
    and th: "those (slots s) = Some rs"
    by (auto simp: starmap_def split: option.splits if_splits)
  have c: "collected trial n s"
    using collected_run [OF collected_init run] .
  from those_Some_nth [OF th] c have len: "length rs = n"
    and sl: "\<forall>i<n. slots s ! i = Some (rs ! i)"
    by (auto simp: collected_def)
  have "trial i = Inr (rs ! i)" if "i < n" for i
  proof -
    from c that idle
    have "(\<forall>r. trial i = Inr r \<longrightarrow> slots s ! i = Some r)
        \<and> (\<forall>e. trial i = Inl e \<longrightarrow> failure s \<noteq> None)"
      by (simp add: collected_def)
    with ok sl that show ?thesis
      by (cases "trial i") auto
  qed
  with len show ?thesis by blast
qed

lemma run_one_by_one:
  assumes "0 < W" "\<forall>i. \<exists>r. trial i = Inr r"
  shows "pending s = [k..<n] \<Longrightarrow> active s = [] \<Longrightarrow> failure s = None \<Longrightarrow>
     \<exists>s'. scheduler_run W trial (one_by_one k n) s = Some s'
          \<and> pending s' = [] \<and> active s' = [] \<and> failure s' = None"
proof (induction "n - k" arbitrary: k s)
  case 0
  then show ?case by (simp add: one_by_one_def)
next
  case (Suc m)
  then have kn: "k < n" by simp
  obtain r where r: "trial k = Inr r" using assms(2) by blast
  let ?s1 = "s\<lparr>pending := removeAll k (pending s), active := k # active s\<rparr>"
  let ?s2 = "?s1\<lparr>active := removeAll k (active ?s1), slots := (slots ?s1)[k := Some r]\<rparr>"
  have p: "pending ?s2 = [Suc k..<n]"
    using Suc.prems kn by (simp add: upt_conv_Cons)
  have a: "active ?s2 = []" "failure ?s2 = None"
    using Suc.prems by simp_all
  have m: "m = n - Suc k" using Suc.hyps by simp
  from Suc.hyps(1) [OF m p a] obtain s' where
    "scheduler_run W trial (one_by_one (Suc k) n) ?s2 = Some s'"
    "pending s' = []" "active s' = []" "failure s' = None" by blast
  moreover have "one_by_one k n = Start k # Finish k # one_by_one (Suc k) n"
    using kn by (simp add: one_by_one_def upt_conv_Cons)
  ultimately show ?case
    using Suc.prems kn assms(1) r by (simp add: upt_conv_Cons)
qed

lemma starmap_returns:
  assumes "0 < W"
  shows "starmap W (\<lambda>i. Inr (r i)) n (one_by_one 0 n) = Some (Inr (map r [0..<n]))"
proof -
  let ?trial = "\<lambda>i. Inr (r i) :: error + 'a"
  have "\<exists>s'. scheduler_run W ?trial (one_by_one 0 n) (scheduler_init n) = Some s'
          \<and> pending s' = [] \<and> active s' = [] \<and> failure s' = None"
    by (rule run_one_by_one [OF assms]) (simp_all add: scheduler_init_def)
  then obtain s where run: "scheduler_run W ?trial (one_by_one 0 n) (scheduler_init n) = Some s"
    and idle: "pending s = []" "active s = []" "failure s = None" by blast
  have c: "collected ?trial n s"
    using collected_run [OF collected_init run] .
  then have "\<forall>i<length (slots s). slots s ! i = Some (r i)" and len: "length (slots s) = n"
    using idle by (auto simp: collected_def)
  from those_all_Some [OF this(1)] len have "those (slots s) = Some (map r [0..<n])"
    by simp
  with run idle show ?thesis
    by (simp add: starmap_def)
qed

text \<open>
  C4. For every number of trials and of workers, whenever the scheduler returns, it returns
  a list with one element for each trial, and the element at position \<open>i\<close> is the
  outcome of the trial with workload id \<open>i\<close>, whatever the order in which the trials
  started and completed. With at least one worker and trials that all return, there is a
  schedule on which it does return, with exactly that list.
\<close>

theorem results_follow_workload_ids:
  "(starmap num_processes trial num_workloads schedule = Some (Inr results) \<longrightarrow>
      length results = num_workloads \<and> (\<forall>i<num_workloads. trial i = Inr (results ! i)))
   \<and> (0 < num_processes \<longrightarrow>
      (\<exists>schedule. starmap num_processes (\<lambda>i. Inr (r i) :: error + 'a) num_workloads schedule
         = Some (Inr (map r [0..<num_workloads]))))"
  using starmap_ordered [of num_processes trial num_workloads schedule results]
    starmap_returns [of num_processes r num_workloads]
  by blast

theorem results_follow_workload_ids_witness:
  "starmap 2 (\<lambda>i. Inr (10 * i) :: error + nat) 3
       [Start 0, Start 1, Finish 1, Start 2, Finish 0, Finish 2] = Some (Inr [0, 10, 20])
   \<and> length [0 :: nat, 10, 20] = 3
   \<and> (Inr (10 * 1) :: error + nat) = Inr ([0, 10, 20] ! 1)
   \<and> (0 :: nat) < 2"
proof -
  have run: "starmap 2 (\<lambda>i. Inr (10 * i) :: error + nat) 3
       [Start 0, Start 1, Finish 1, Start 2, Finish 0, Finish 2] = Some (Inr [0, 10, 20])"
    by code_simp
  from results_follow_workload_ids [of 2 "\<lambda>i. Inr (10 * i)" 3
      "[Start 0, Start 1, Finish 1, Start 2, Finish 0, Finish 2]" "[0, 10, 20]"] run
  have "length [0 :: nat, 10, 20] = 3
      \<and> (\<forall>i<3. (Inr (10 * i) :: error + nat) = Inr ([0, 10, 20] ! i))"
    by blast
  with run show ?thesis
    by simp
qed

section \<open>The acquisition loop\<close>

subsection \<open>One pass through the loop\<close>

lemma acquire_exit:
  "\<not> while_condition l \<Longrightarrow> acquire_loop E wid feed l w = Some (Inr l, w)"
  by (simp add: acquire_loop.simps [of E wid feed l w])

lemma acquire_starved:
  "while_condition l \<Longrightarrow> acquire_loop E wid [] l w = None"
  by (simp add: acquire_loop.simps [of E wid "[]" l w])

lemma acquire_duplicate:
  assumes "while_condition l"
    and "trial_design_hash (pyhash E) d \<in> set (set_of_design_hashes w @ others)"
  shows "acquire_loop E wid ((others, d) # rest) l w =
     acquire_loop E wid rest
       (l\<lparr>design := Some d, design_hash := Some (trial_design_hash (pyhash E) d)\<rparr>)
       (w\<lparr>set_of_design_hashes := set_of_design_hashes w @ others\<rparr>)"
  using assms
  by (simp add: acquire_loop.simps [of E wid "(others, d) # rest" l w] try_register_def Let_def)

lemma acquire_error:
  assumes "while_condition l"
    and "trial_design_hash (pyhash E) d \<notin> set (set_of_design_hashes w @ others)"
    and "get_num_cells (yosys_stats E d) = Inl e"
  shows "acquire_loop E wid ((others, d) # rest) l w =
     Some (Inl e,
       write_file (design_path wid (trial_design_hash (pyhash E) d)) d
         (w\<lparr>set_of_design_hashes :=
              set_of_design_hashes w @ others @ [trial_design_hash (pyhash E) d]\<rparr>))"
  using assms
  by (simp add: acquire_loop.simps [of E wid "(others, d) # rest" l w] try_register_def Let_def)

lemma acquire_counted:
  assumes "while_condition l"
    and "trial_design_hash (pyhash E) d \<notin> set (set_of_design_hashes w @ others)"
    and "get_num_cells (yosys_stats E d) = Inr n"
  shows "acquire_loop E wid ((others, d) # rest) l w =
     acquire_loop E wid rest
       (l\<lparr>design := Some d, design_hash := Some (trial_design_hash (pyhash E) d),
           path_to_design := Some (design_path wid (trial_design_hash (pyhash E) d)),
           num_cells := Some n\<rparr>)
       (write_file (design_path wid (trial_design_hash (pyhash E) d)) d
         (w\<lparr>set_of_design_hashes :=
              set_of_design_hashes w @ others @ [trial_design_hash (pyhash E) d]\<rparr>))"
  using assms
  by (simp add: acquire_loop.simps [of E wid "(others, d) # rest" l w] try_register_def Let_def)

text \<open>The shape of every proof about the loop: induction on the feed, one case per branch.\<close>

lemma acquire_induct [consumes 1, case_names exit duplicate error counted]:
  assumes run: "acquire_loop E wid feed l w = Some (r, w')"
    and exit: "\<And>feed l w. \<not> while_condition l \<Longrightarrow> P feed l w (Inr l) w"
    and duplicate: "\<And>others d rest l w r w'.
        while_condition l \<Longrightarrow>
        trial_design_hash (pyhash E) d \<in> set (set_of_design_hashes w @ others) \<Longrightarrow>
        acquire_loop E wid rest
          (l\<lparr>design := Some d, design_hash := Some (trial_design_hash (pyhash E) d)\<rparr>)
          (w\<lparr>set_of_design_hashes := set_of_design_hashes w @ others\<rparr>) = Some (r, w') \<Longrightarrow>
        P rest (l\<lparr>design := Some d, design_hash := Some (trial_design_hash (pyhash E) d)\<rparr>)
          (w\<lparr>set_of_design_hashes := set_of_design_hashes w @ others\<rparr>) r w' \<Longrightarrow>
        P ((others, d) # rest) l w r w'"
    and error: "\<And>others d rest l w e.
        while_condition l \<Longrightarrow>
        trial_design_hash (pyhash E) d \<notin> set (set_of_design_hashes w @ others) \<Longrightarrow>
        get_num_cells (yosys_stats E d) = Inl e \<Longrightarrow>
        P ((others, d) # rest) l w (Inl e)
          (write_file (design_path wid (trial_design_hash (pyhash E) d)) d
            (w\<lparr>set_of_design_hashes :=
                 set_of_design_hashes w @ others @ [trial_design_hash (pyhash E) d]\<rparr>))"
    and counted: "\<And>others d rest l w n r w'.
        while_condition l \<Longrightarrow>
        trial_design_hash (pyhash E) d \<notin> set (set_of_design_hashes w @ others) \<Longrightarrow>
        get_num_cells (yosys_stats E d) = Inr n \<Longrightarrow>
        acquire_loop E wid rest
          (l\<lparr>design := Some d, design_hash := Some (trial_design_hash (pyhash E) d),
              path_to_design := Some (design_path wid (trial_design_hash (pyhash E) d)),
              num_cells := Some n\<rparr>)
          (write_file (design_path wid (trial_design_hash (pyhash E) d)) d
            (w\<lparr>set_of_design_hashes :=
                 set_of_design_hashes w @ others @ [trial_design_hash (pyhash E) d]\<rparr>))
          = Some (r, w') \<Longrightarrow>
        P rest
          (l\<lparr>design := Some d, design_hash := Some (trial_design_hash (pyhash E) d),
              path_to_design := Some (design_path wid (trial_design_hash (pyhash E) d)),
              num_cells := Some n\<rparr>)
          (write_file (design_path wid (trial_design_hash (pyhash E) d)) d
            (w\<lparr>set_of_design_hashes :=
                 set_of_design_hashes w @ others @ [trial_design_hash (pyhash E) d]\<rparr>))
          r w' \<Longrightarrow>
        P ((others, d) # rest) l w r w'"
  shows "P feed l w r w'"
  using run
proof (induction feed arbitrary: l w)
  case Nil
  show ?case
  proof (cases "while_condition l")
    case True
    with Nil show ?thesis by (simp add: acquire_starved)
  next
    case False
    with Nil exit [OF False] show ?thesis by (simp add: acquire_exit)
  qed
next
  case (Cons a rest)
  obtain others d where a: "a = (others, d)" by (cases a)
  show ?case
  proof (cases "while_condition l")
    case False
    with Cons.prems exit [OF False] show ?thesis by (simp add: acquire_exit)
  next
    case True
    show ?thesis
    proof (cases "trial_design_hash (pyhash E) d \<in> set (set_of_design_hashes w @ others)")
      case dup: True
      from Cons.prems have run': "acquire_loop E wid rest
          (l\<lparr>design := Some d, design_hash := Some (trial_design_hash (pyhash E) d)\<rparr>)
          (w\<lparr>set_of_design_hashes := set_of_design_hashes w @ others\<rparr>) = Some (r, w')"
        unfolding a acquire_duplicate [OF True dup] .
      from duplicate [OF True dup run' Cons.IH [OF run']] show ?thesis
        unfolding a .
    next
      case fresh: False
      show ?thesis
      proof (cases "get_num_cells (yosys_stats E d)")
        case (Inl e)
        from Cons.prems error [OF True fresh Inl] show ?thesis
          unfolding a acquire_error [OF True fresh Inl] by simp
      next
        case (Inr n)
        from Cons.prems have run': "acquire_loop E wid rest
          (l\<lparr>design := Some d, design_hash := Some (trial_design_hash (pyhash E) d),
              path_to_design := Some (design_path wid (trial_design_hash (pyhash E) d)),
              num_cells := Some n\<rparr>)
          (write_file (design_path wid (trial_design_hash (pyhash E) d)) d
            (w\<lparr>set_of_design_hashes :=
                 set_of_design_hashes w @ others @ [trial_design_hash (pyhash E) d]\<rparr>))
          = Some (r, w')"
          unfolding a acquire_counted [OF True fresh Inr] .
        from counted [OF True fresh Inr run' Cons.IH [OF run']] show ?thesis
          unfolding a .
      qed
    qed
  qed
qed

lemma acquire_bound:
  assumes "acquire_loop E wid feed l w = Some (r, w')"
  shows "case r of Inl e \<Rightarrow> True | Inr l' \<Rightarrow> \<not> while_condition l'"
  using assms by (induction rule: acquire_induct) simp_all


lemma while_condition_update [simp]:
  "while_condition (l\<lparr>design := a\<rparr>) = while_condition l"
  "while_condition (l\<lparr>design_hash := b\<rparr>) = while_condition l"
  "while_condition (l\<lparr>path_to_design := c\<rparr>) = while_condition l"
  by (simp_all add: while_condition_def)

lemma acquire_accepts:
  assumes "acquire_loop E wid feed l w = Some (r, w')"
  shows "while_condition l \<Longrightarrow> r = Inr l' \<Longrightarrow>
     \<exists>(others, d) \<in> set feed. \<exists>n. design l' = Some d \<and> num_cells l' = Some n
        \<and> get_num_cells (yosys_stats E d) = Inr n \<and> n \<le> MAX_NUM_CELLS
        \<and> design_hash l' = Some (trial_design_hash (pyhash E) d)
        \<and> path_to_design l' = Some (design_path wid (trial_design_hash (pyhash E) d))"
  using assms
proof (induction rule: acquire_induct)
  case (exit feed l w)
  then show ?case by simp
next
  case (duplicate others d rest l w r w')
  then show ?case by auto
next
  case (error others d rest l w e)
  then show ?case by simp
next
  case (counted others d rest l w n r w')
  let ?l = "l\<lparr>design := Some d, design_hash := Some (trial_design_hash (pyhash E) d),
              path_to_design := Some (design_path wid (trial_design_hash (pyhash E) d)),
              num_cells := Some n\<rparr>"
  show ?case
  proof (cases "while_condition ?l")
    case True
    with counted show ?thesis by auto
  next
    case False
    with counted.hyps(4) have "r = Inr ?l"
      by (simp add: acquire_exit)
    with counted.prems counted.hyps(3) False show ?thesis
      by (auto simp: while_condition_def)
  qed
qed

lemma test_new_design_Inr:
  assumes "test_new_design E feed wid w = Some (Inr (n, dur), w')"
  obtains l w1 dh p cd where
    "acquire_loop E wid feed initial_locals w = Some (Inr l, w1)"
    "num_cells l = Some n" "design_hash l = Some dh" "path_to_design l = Some p"
    "check_equiv E p (synthesized_path wid dh)
       (synthesize_design E p (synthesized_path wid dh) (synth_log_path wid dh) w1) = (Inr cd, w')"
    "dur = (if cd = None then Some (PyInt TIMEOUT_SECONDS) else cd)"
  using assms
  by (auto simp: test_new_design_def Let_def
      split: option.splits sum.splits prod.splits if_splits)

lemma initial_condition: "while_condition initial_locals"
  by (simp add: while_condition_def initial_locals_def)

text \<open>
  C5. Whenever the trial executor returns a pair, its cell count is at most 10000 and is
  the count reported for one of the generated designs. In one pass through the loop, with a
  candidate that is not a duplicate: a count of at most 10000 (so exactly 10000 too) ends
  the loop with that design accepted; a count above 10000 (so 10001) does not, and if the
  loop ends later, the accepted design is one generated afterwards, with a count of at most
  10000.
\<close>

theorem accepted_cell_count_within_bound:
  "(test_new_design E feed wid w = Some (Inr (n, dur), w') \<longrightarrow>
      n \<le> 10000 \<and> (\<exists>(others, d) \<in> set feed. get_num_cells (yosys_stats E d) = Inr n))
   \<and> (while_condition l
        \<and> trial_design_hash (pyhash E) d \<notin> set (set_of_design_hashes w @ others)
        \<and> get_num_cells (yosys_stats E d) = Inr c \<longrightarrow>
      (c \<le> 10000 \<longrightarrow>
         (\<exists>l' w2. acquire_loop E wid ((others, d) # rest) l w = Some (Inr l', w2)
            \<and> design l' = Some d \<and> num_cells l' = Some c))
      \<and> (10000 < c \<longrightarrow>
         (\<forall>l' w2. acquire_loop E wid ((others, d) # rest) l w = Some (Inr l', w2) \<longrightarrow>
            (\<exists>(others', d') \<in> set rest. \<exists>n'. design l' = Some d' \<and> num_cells l' = Some n'
               \<and> get_num_cells (yosys_stats E d') = Inr n' \<and> n' \<le> 10000))))"
proof (intro conjI impI allI)
  assume run: "test_new_design E feed wid w = Some (Inr (n, dur), w')"
  then obtain l w1 where a: "acquire_loop E wid feed initial_locals w = Some (Inr l, w1)"
    and n: "num_cells l = Some n"
    by (rule test_new_design_Inr)
  from acquire_accepts [OF a initial_condition refl] n
  show "n \<le> 10000" and "\<exists>(others, d) \<in> set feed. get_num_cells (yosys_stats E d) = Inr n"
    by (auto simp: MAX_NUM_CELLS_def)
next
  assume h: "while_condition l
        \<and> trial_design_hash (pyhash E) d \<notin> set (set_of_design_hashes w @ others)
        \<and> get_num_cells (yosys_stats E d) = Inr c" and c: "c \<le> 10000"
  then show "\<exists>l' w2. acquire_loop E wid ((others, d) # rest) l w = Some (Inr l', w2)
            \<and> design l' = Some d \<and> num_cells l' = Some c"
    by (simp add: acquire_counted acquire_exit while_condition_def MAX_NUM_CELLS_def)
next
  fix l' w2
  assume h: "while_condition l
        \<and> trial_design_hash (pyhash E) d \<notin> set (set_of_design_hashes w @ others)
        \<and> get_num_cells (yosys_stats E d) = Inr c" and c: "10000 < c"
    and run: "acquire_loop E wid ((others, d) # rest) l w = Some (Inr l', w2)"
  let ?l = "l\<lparr>design := Some d, design_hash := Some (trial_design_hash (pyhash E) d),
              path_to_design := Some (design_path wid (trial_design_hash (pyhash E) d)),
              num_cells := Some c\<rparr>"
  from h run have run': "acquire_loop E wid rest ?l
      (write_file (design_path wid (trial_design_hash (pyhash E) d)) d
         (w\<lparr>set_of_design_hashes :=
              set_of_design_hashes w @ others @ [trial_design_hash (pyhash E) d]\<rparr>))
      = Some (Inr l', w2)"
    by (simp add: acquire_counted)
  have "while_condition ?l"
    using c by (simp add: while_condition_def MAX_NUM_CELLS_def)
  from acquire_accepts [OF run' this refl]
  show "\<exists>(others', d') \<in> set rest. \<exists>n'. design l' = Some d' \<and> num_cells l' = Some n'
               \<and> get_num_cells (yosys_stats E d') = Inr n' \<and> n' \<le> 10000"
    by (auto simp: MAX_NUM_CELLS_def)
qed

subsection \<open>Evaluating the examples\<close>

lemma demo_result:
  "map_option fst (test_new_design demo_env demo_feed 0 demo_world)
     = Some (Inr (10000, Some (PyInt 5)))"
  by code_simp


lemma demo_counts:
  "get_num_cells (yosys_stats demo_env demo_big) = Inr 10001"
  "get_num_cells (yosys_stats demo_env demo_small) = Inr 10000"
  by code_simp+

lemma demo_run:
  obtains w' where
    "test_new_design demo_env demo_feed 0 demo_world = Some (Inr (10000, Some (PyInt 5)), w')"
  using demo_result by (cases "test_new_design demo_env demo_feed 0 demo_world") auto

lemma demo_acquire_small:
  "map_option (\<lambda>r. map_sum id (\<lambda>l. (design l, num_cells l)) (fst r))
       (acquire_loop demo_env 0 [([], demo_small)] initial_locals demo_world)
     = Some (Inr (Some demo_small, Some 10000))"
  by code_simp

lemma demo_acquire_big:
  "map_option (\<lambda>r. map_sum id (\<lambda>l. (design l, num_cells l)) (fst r))
       (acquire_loop demo_env 0 demo_feed initial_locals demo_world)
     = Some (Inr (Some demo_small, Some 10000))"
  by code_simp

lemma demo_fresh:
  "trial_design_hash (pyhash demo_env) demo_small \<notin> set (set_of_design_hashes demo_world @ [])"
  "trial_design_hash (pyhash demo_env) demo_big \<notin> set (set_of_design_hashes demo_world @ [])"
  by (simp_all add: demo_world_def)

theorem accepted_cell_count_within_bound_witness:
  "map_option fst (test_new_design demo_env demo_feed 0 demo_world)
     = Some (Inr (10000, Some (PyInt 5)))
   \<and> (10000 :: int) \<le> 10000
   \<and> while_condition initial_locals
   \<and> trial_design_hash (pyhash demo_env) demo_small \<notin> set (set_of_design_hashes demo_world @ [])
   \<and> get_num_cells (yosys_stats demo_env demo_small) = Inr 10000
   \<and> (\<exists>l' w2. acquire_loop demo_env 0 [([], demo_small)] initial_locals demo_world
                 = Some (Inr l', w2)
          \<and> design l' = Some demo_small \<and> num_cells l' = Some 10000)
   \<and> get_num_cells (yosys_stats demo_env demo_big) = Inr 10001
   \<and> (10000 :: int) < 10001
   \<and> map_option (\<lambda>r. map_sum id (\<lambda>l. (design l, num_cells l)) (fst r))
       (acquire_loop demo_env 0 demo_feed initial_locals demo_world)
     = Some (Inr (Some demo_small, Some 10000))"
proof -
  obtain w' where
    run: "test_new_design demo_env demo_feed 0 demo_world
            = Some (Inr (10000, Some (PyInt 5)), w')"
    by (rule demo_run)
  from accepted_cell_count_within_bound
         [of demo_env demo_feed 0 demo_world 10000 "Some (PyInt 5)" w'] run
  have a: "(10000 :: int) \<le> 10000" by blast
  have h: "while_condition initial_locals
        \<and> trial_design_hash (pyhash demo_env) demo_small
            \<notin> set (set_of_design_hashes demo_world @ [])
        \<and> get_num_cells (yosys_stats demo_env demo_small) = Inr 10000"
    using initial_condition demo_fresh demo_counts by simp
  from accepted_cell_count_within_bound
         [where E = demo_env and l = initial_locals and d = demo_small and w = demo_world
            and others = "[]" and c = 10000 and wid = 0 and rest = "[]"] h
  have b: "\<exists>l' w2. acquire_loop demo_env 0 [([], demo_small)] initial_locals demo_world
                 = Some (Inr l', w2)
          \<and> design l' = Some demo_small \<and> num_cells l' = Some 10000"
    by simp
  from a b h demo_result demo_counts demo_acquire_big show ?thesis
    by simp
qed

subsection \<open>Timeout\<close>








subsection \<open>Files written by the loop\<close>

lemma design_path_inject: "design_path wid a = design_path wid b \<longleftrightarrow> a = b"
  by (simp add: design_path_def)

lemma acquire_keeps_registered:
  assumes "acquire_loop E wid feed l w = Some (r, w')"
  shows "dh \<in> set (set_of_design_hashes w) \<Longrightarrow>
     files w' (design_path wid dh) = files w (design_path wid dh)"
  using assms
proof (induction rule: acquire_induct)
  case (exit feed l w)
  then show ?case by simp
next
  case (duplicate others d rest l w r w')
  then show ?case by simp
next
  case (error others d rest l w e)
  then have "trial_design_hash (pyhash E) d \<noteq> dh" by auto
  then show ?case
    by (simp add: write_file_def design_path_inject)
next
  case (counted others d rest l w n r w')
  then have "trial_design_hash (pyhash E) d \<noteq> dh" by auto
  with counted show ?case
    by (simp add: write_file_def design_path_inject)
qed

lemma acquire_writes_only_candidates:
  assumes "acquire_loop E wid feed l w = Some (r, w')"
  shows "files w' p \<noteq> files w p \<Longrightarrow>
     \<exists>(others, d) \<in> set feed.
        p = design_path wid (trial_design_hash (pyhash E) d) \<and> files w' p = Some d"
  using assms
proof (induction rule: acquire_induct)
  case (exit feed l w)
  then show ?case by simp
next
  case (duplicate others d rest l w r w')
  then show ?case by auto
next
  case (error others d rest l w e)
  then show ?case
    by (auto simp: write_file_def split: if_splits)
next
  case (counted others d rest l w n r w')
  let ?dh = "trial_design_hash (pyhash E) d"
  let ?w2 = "write_file (design_path wid ?dh) d
            (w\<lparr>set_of_design_hashes := set_of_design_hashes w @ others @ [?dh]\<rparr>)"
  show ?case
  proof (cases "files w' p = files ?w2 p")
    case False
    from counted.IH [OF False] show ?thesis by auto
  next
    case True
    with counted.prems have p: "p = design_path wid ?dh"
      by (auto simp: write_file_def split: if_splits)
    have "files w' (design_path wid ?dh) = files ?w2 (design_path wid ?dh)"
      by (rule acquire_keeps_registered [OF counted.hyps(4)]) (simp add: write_file_def)
    then have "files w' p = Some d"
      by (simp add: p write_file_def)
    with p show ?thesis by auto
  qed
qed

text \<open>
  C8, as amended. In a pass through the loop, a candidate whose fingerprint is already
  registered is discarded and its file is not written, then or later in the loop. A
  candidate that passes registration is written to
  \<open>tmp/designs/design_<workload id>_<fingerprint>.v\<close> before its cells are counted, and
  the file is still there when the loop ends, whatever the count. The loop changes no other
  file.
\<close>

theorem only_duplicates_are_not_persisted:
  "(acquire_loop E wid ((others, d) # rest) l w = Some (r, w') \<and> while_condition l \<longrightarrow>
      (trial_design_hash (pyhash E) d \<in> set (set_of_design_hashes w @ others) \<longrightarrow>
         files w' (design_path wid (trial_design_hash (pyhash E) d))
           = files w (design_path wid (trial_design_hash (pyhash E) d)))
      \<and> (trial_design_hash (pyhash E) d \<notin> set (set_of_design_hashes w @ others) \<longrightarrow>
         files w' (design_path wid (trial_design_hash (pyhash E) d)) = Some d))
   \<and> (acquire_loop E wid feed l w = Some (r, w') \<and> files w' p \<noteq> files w p \<longrightarrow>
      (\<exists>(others, d) \<in> set feed.
          p = design_path wid (trial_design_hash (pyhash E) d) \<and> files w' p = Some d))"
proof (intro conjI impI)
  let ?dh = "trial_design_hash (pyhash E) d"
  assume a: "acquire_loop E wid ((others, d) # rest) l w = Some (r, w') \<and> while_condition l"
    and dup: "?dh \<in> set (set_of_design_hashes w @ others)"
  from a have "acquire_loop E wid rest
       (l\<lparr>design := Some d, design_hash := Some ?dh\<rparr>)
       (w\<lparr>set_of_design_hashes := set_of_design_hashes w @ others\<rparr>) = Some (r, w')"
    unfolding acquire_duplicate [OF conjunct2 [OF a] dup] by simp
  from acquire_keeps_registered [OF this, of ?dh] dup
  show "files w' (design_path wid ?dh) = files w (design_path wid ?dh)"
    by simp
next
  let ?dh = "trial_design_hash (pyhash E) d"
  let ?w2 = "write_file (design_path wid ?dh) d
            (w\<lparr>set_of_design_hashes := set_of_design_hashes w @ others @ [?dh]\<rparr>)"
  assume a: "acquire_loop E wid ((others, d) # rest) l w = Some (r, w') \<and> while_condition l"
    and fresh: "?dh \<notin> set (set_of_design_hashes w @ others)"
  show "files w' (design_path wid ?dh) = Some d"
  proof (cases "get_num_cells (yosys_stats E d)")
    case (Inl e)
    from a show ?thesis
      unfolding acquire_error [OF conjunct2 [OF a] fresh Inl] by (auto simp: write_file_def)
  next
    case (Inr n)
    from a have "acquire_loop E wid rest
       (l\<lparr>design := Some d, design_hash := Some ?dh,
           path_to_design := Some (design_path wid ?dh), num_cells := Some n\<rparr>) ?w2
       = Some (r, w')"
      unfolding acquire_counted [OF conjunct2 [OF a] fresh Inr] by simp
    from acquire_keeps_registered [OF this, of ?dh]
    show ?thesis
      by (simp add: write_file_def)
  qed
next
  assume "acquire_loop E wid feed l w = Some (r, w') \<and> files w' p \<noteq> files w p"
  then show "\<exists>(others, d) \<in> set feed.
          p = design_path wid (trial_design_hash (pyhash E) d) \<and> files w' p = Some d"
    using acquire_writes_only_candidates [of E wid feed l w r w' p] by blast
qed

lemma demo_acquire_returns:
  "(case acquire_loop demo_env 0 demo_feed initial_locals demo_world of
      None \<Rightarrow> False | Some r \<Rightarrow> True)"
  "(case acquire_loop demo_env 0 demo_taken_feed initial_locals demo_world of
      None \<Rightarrow> False | Some r \<Rightarrow> True)"
  by code_simp+

lemma demo_unwritten:
  "files demo_world (design_path 0 (trial_design_hash (pyhash demo_env) demo_big)) = None"
  by code_simp

lemma demo_taken:
  "trial_design_hash (pyhash demo_env) demo_big
     \<in> set (set_of_design_hashes demo_world @ [trial_design_hash (pyhash demo_env) demo_big])"
  by simp

theorem only_duplicates_are_not_persisted_witness:
  "while_condition initial_locals
   \<and> trial_design_hash (pyhash demo_env) demo_big
       \<in> set (set_of_design_hashes demo_world @ [trial_design_hash (pyhash demo_env) demo_big])
   \<and> map_option (\<lambda>r. files (snd r) (design_path 0 (trial_design_hash (pyhash demo_env) demo_big)))
       (acquire_loop demo_env 0 demo_taken_feed initial_locals demo_world)
     = Some (files demo_world (design_path 0 (trial_design_hash (pyhash demo_env) demo_big)))
   \<and> trial_design_hash (pyhash demo_env) demo_big \<notin> set (set_of_design_hashes demo_world @ [])
   \<and> map_option (\<lambda>r. files (snd r) (design_path 0 (trial_design_hash (pyhash demo_env) demo_big)))
       (acquire_loop demo_env 0 demo_feed initial_locals demo_world)
     = Some (Some demo_big)
   \<and> files demo_world (design_path 0 (trial_design_hash (pyhash demo_env) demo_big)) = None
   \<and> ([], demo_big) \<in> set demo_feed"
proof -
  let ?p = "design_path 0 (trial_design_hash (pyhash demo_env) demo_big)"
  obtain r1 w1 where
    run1: "acquire_loop demo_env 0
             (([trial_design_hash (pyhash demo_env) demo_big], demo_big) # [([], demo_small)])
             initial_locals demo_world = Some (r1, w1)"
    using demo_acquire_returns(2)
    by (cases "acquire_loop demo_env 0 demo_taken_feed initial_locals demo_world")
       (auto simp: demo_taken_feed_def)
  obtain r2 w2 where
    run2: "acquire_loop demo_env 0 (([], demo_big) # [([], demo_big), ([], demo_small)])
             initial_locals demo_world = Some (r2, w2)"
    using demo_acquire_returns(1)
    by (cases "acquire_loop demo_env 0 demo_feed initial_locals demo_world")
       (auto simp: demo_feed_def)
  from only_duplicates_are_not_persisted
         [of demo_env 0 "[trial_design_hash (pyhash demo_env) demo_big]" demo_big
            "[([], demo_small)]" initial_locals demo_world r1 w1]
       run1 initial_condition demo_taken
  have a: "files w1 ?p = files demo_world ?p"
    by blast
  from only_duplicates_are_not_persisted
         [of demo_env 0 "[]" demo_big "[([], demo_big), ([], demo_small)]"
            initial_locals demo_world r2 w2]
       run2 initial_condition demo_fresh(2)
  have b: "files w2 ?p = Some demo_big"
    by blast
  have c: "([], demo_big) \<in> set demo_feed"
    by (simp add: demo_feed_def)
  from a b c run1 run2 initial_condition demo_taken demo_fresh(2) demo_unwritten
  show ?thesis
    by (simp add: demo_feed_def demo_taken_feed_def)
qed

lemma demo_big_file:
  "map_option (\<lambda>r. files (snd r) (design_path 0 (trial_design_hash (pyhash demo_env) demo_big)))
       (test_new_design demo_env demo_feed 0 demo_world)
     = Some (Some demo_big)"
  by code_simp

text \<open>
  The claim as stated fails: the larger design is counted at 10001 cells, above the bound,
  the trial goes on to accept another design, and the file of the larger one, absent
  before the trial, is on disk after it.
\<close>

theorem over_bound_design_is_persisted:
  "get_num_cells (yosys_stats demo_env demo_big) = Inr 10001
   \<and> MAX_NUM_CELLS < 10001
   \<and> map_option fst (test_new_design demo_env demo_feed 0 demo_world)
       = Some (Inr (10000, Some (PyInt 5)))
   \<and> files demo_world (design_path 0 (trial_design_hash (pyhash demo_env) demo_big)) = None
   \<and> map_option (\<lambda>r. files (snd r) (design_path 0 (trial_design_hash (pyhash demo_env) demo_big)))
       (test_new_design demo_env demo_feed 0 demo_world)
       = Some (Some demo_big)"
proof -
  have "files demo_world (design_path 0 (trial_design_hash (pyhash demo_env) demo_big)) = None"
    by code_simp
  with demo_counts demo_result demo_big_file show ?thesis
    by (simp add: MAX_NUM_CELLS_def)
qed

section \<open>The wrapper\<close>

subsection \<open>Finding a line\<close>

lemma first_index_None: "first_index P xs = None \<longleftrightarrow> (\<forall>x \<in> set xs. \<not> P x)"
  by (induction xs) auto

lemma first_index_Some:
  "first_index P xs = Some i \<Longrightarrow> i < length xs \<and> P (xs ! i) \<and> find P xs = Some (xs ! i)"
proof (induction xs arbitrary: i)
  case Nil
  then show ?case by simp
next
  case (Cons x xs)
  then show ?case
    by (cases "P x") auto
qed

lemma find_first_index:
  "find P xs = Some x \<Longrightarrow> \<exists>i. first_index P xs = Some i \<and> xs ! i = x"
proof (induction xs)
  case Nil
  then show ?case by simp
next
  case (Cons a xs)
  then show ?case
    by (cases "P a") auto
qed

lemma first_index_find_None: "find P xs = None \<Longrightarrow> first_index P xs = None"
  by (simp add: first_index_None find_None_iff)

subsection \<open>The output declaration\<close>

lemma new_top_lines_found:
  assumes "find (\<lambda>line. startswith (strip line) ''output wire'') (split_chr (CHR 0x0A) fc)
             = Some line"
  shows "new_top_lines fc =
     (if endswith (strip line) ''y;'' then
        Inr ([''module top_equiv (y_a, y_b, ''
                @ join '', '' (input_wire_names (split_chr (CHR 0x0A) fc)) @ '');'',
              replace (strip line) ''y;'' ''y_a;'',
              replace (strip line) ''y;'' ''y_b;'']
             @ input_wire_lines (split_chr (CHR 0x0A) fc)
             @ [''top_first top_first_inst (.y(y_a), ''
                  @ port_bindings (input_wire_names (split_chr (CHR 0x0A) fc)) @ '');'',
                ''top_second top_second_inst (.y(y_b), ''
                  @ port_bindings (input_wire_names (split_chr (CHR 0x0A) fc)) @ '');'',
                ''endmodule''])
      else Inl AssertionError)"
proof -
  from find_first_index [OF assms] obtain i where
    i: "first_index (\<lambda>line. startswith (strip line) ''output wire'') (split_chr (CHR 0x0A) fc)
          = Some i"
    and l: "split_chr (CHR 0x0A) fc ! i = line"
    by blast
  from first_index_Some [OF i] l have "startswith (strip line) ''output wire''"
    by simp
  with i l show ?thesis
    by (simp add: new_top_lines_def output_wire_line_id_def Let_def)
qed

lemma new_top_lines_not_found:
  assumes "find (\<lambda>line. startswith (strip line) ''output wire'') (split_chr (CHR 0x0A) fc) = None"
  shows "new_top_lines fc = Inl AssertionError"
  using first_index_find_None [OF assms]
  by (simp add: new_top_lines_def output_wire_line_id_def Let_def)

lemma no_declaration_fails:
  assumes "\<not> list_ex is_output_declaration (split_chr (CHR 0x0A) fc)"
  shows "new_top_lines fc = Inl AssertionError"
proof (cases "find (\<lambda>line. startswith (strip line) ''output wire'') (split_chr (CHR 0x0A) fc)")
  case None
  then show ?thesis by (rule new_top_lines_not_found)
next
  case (Some line)
  then have "line \<in> set (split_chr (CHR 0x0A) fc)"
    by (auto simp: find_Some_iff)
  with assms have "\<not> is_output_declaration line"
    by (auto simp: list_ex_iff)
  moreover from Some have "startswith (strip line) ''output wire''"
    by (auto simp: find_Some_iff)
  ultimately have "\<not> endswith (strip line) ''y;''"
    by (simp add: is_output_declaration_def)
  then show ?thesis
    by (simp add: new_top_lines_found [OF Some])
qed

lemma check_equiv_fails:
  assumes "files w f = Some fv" "files w s = Some sv"
    and "new_top_lines (first_file_transformed_content fv) = Inl e"
  shows "fst (check_equiv E f s w) = Inl e \<and> signals (snd (check_equiv E f s w)) = signals w"
  using assms by (simp add: check_equiv_def Let_def write_file_def)

text \<open>
  C9, as amended. The builder fails with an \<open>AssertionError\<close> when no line of the first
  design is an output declaration of the expected pattern. Only the first line that begins
  with \<open>output wire\<close> is looked at: when it ends with \<open>y;\<close> the builder assembles the
  wrapper, whose second and third lines are that line with \<open>y;\<close> replaced by \<open>y_a;\<close> and
  by \<open>y_b;\<close>; when it does not, the builder fails, whatever the later lines are. The
  failure is the result of \<open>check_equiv\<close>, and no process is signalled.
\<close>

theorem first_output_declaration_decides:
  "(\<not> list_ex is_output_declaration (split_chr (CHR 0x0A) fc) \<longrightarrow>
      new_top_lines fc = Inl AssertionError)
   \<and> (find (\<lambda>line. startswith (strip line) ''output wire'') (split_chr (CHR 0x0A) fc) = Some line
        \<and> endswith (strip line) ''y;'' \<longrightarrow>
      (\<exists>ls. new_top_lines fc = Inr ls
         \<and> ls ! 1 = replace (strip line) ''y;'' ''y_a;''
         \<and> ls ! 2 = replace (strip line) ''y;'' ''y_b;''))
   \<and> (find (\<lambda>line. startswith (strip line) ''output wire'') (split_chr (CHR 0x0A) fc) = Some line
        \<and> \<not> endswith (strip line) ''y;'' \<longrightarrow>
      new_top_lines fc = Inl AssertionError)
   \<and> (files w f = Some fv \<and> files w s = Some sv
        \<and> new_top_lines (first_file_transformed_content fv) = Inl AssertionError \<longrightarrow>
      fst (check_equiv E f s w) = Inl AssertionError
      \<and> signals (snd (check_equiv E f s w)) = signals w)"
  using no_declaration_fails [of fc] new_top_lines_found [of fc line]
    check_equiv_fails [of w f fv s sv AssertionError E]
  by simp

theorem first_output_declaration_decides_witness:
  "\<not> list_ex is_output_declaration (split_chr (CHR 0x0A) ''module top_first (a);'')
   \<and> new_top_lines ''module top_first (a);'' = Inl AssertionError
   \<and> find (\<lambda>line. startswith (strip line) ''output wire'')
        (split_chr (CHR 0x0A) (first_file_transformed_content demo_small)) = Some ''output wire y;''
   \<and> endswith (strip ''output wire y;'') ''y;''
   \<and> (\<exists>ls. new_top_lines (first_file_transformed_content demo_small) = Inr ls
         \<and> ls ! 1 = ''output wire y_a;'' \<and> ls ! 2 = ''output wire y_b;'')
   \<and> find (\<lambda>line. startswith (strip line) ''output wire'')
        (split_chr (CHR 0x0A) (first_file_transformed_content demo_two_outputs))
        = Some ''output wire z;''
   \<and> \<not> endswith (strip ''output wire z;'') ''y;''
   \<and> new_top_lines (first_file_transformed_content demo_two_outputs) = Inl AssertionError
   \<and> fst (check_equiv demo_env ''c.v'' ''b.v'' (write_file ''c.v'' demo_two_outputs demo_world))
       = Inl AssertionError"
proof -
  let ?w = "write_file ''c.v'' demo_two_outputs demo_world"
  have a: "\<not> list_ex is_output_declaration (split_chr (CHR 0x0A) ''module top_first (a);'')"
    by code_simp
  from first_output_declaration_decides [of "''module top_first (a);''"] a
  have a': "new_top_lines ''module top_first (a);'' = Inl AssertionError"
    by blast
  have b: "find (\<lambda>line. startswith (strip line) ''output wire'')
        (split_chr (CHR 0x0A) (first_file_transformed_content demo_small)) = Some ''output wire y;''"
    "endswith (strip ''output wire y;'') ''y;''"
    by code_simp+
  have r: "replace (strip ''output wire y;'') ''y;'' ''y_a;'' = ''output wire y_a;''"
    "replace (strip ''output wire y;'') ''y;'' ''y_b;'' = ''output wire y_b;''"
    by code_simp+
  from first_output_declaration_decides
         [of "first_file_transformed_content demo_small" "''output wire y;''"] b
  have b': "\<exists>ls. new_top_lines (first_file_transformed_content demo_small) = Inr ls
         \<and> ls ! 1 = ''output wire y_a;'' \<and> ls ! 2 = ''output wire y_b;''"
    unfolding r by blast
  have c: "find (\<lambda>line. startswith (strip line) ''output wire'')
        (split_chr (CHR 0x0A) (first_file_transformed_content demo_two_outputs))
        = Some ''output wire z;''"
    "\<not> endswith (strip ''output wire z;'') ''y;''"
    by code_simp+
  from first_output_declaration_decides
         [of "first_file_transformed_content demo_two_outputs" "''output wire z;''"] c
  have c': "new_top_lines (first_file_transformed_content demo_two_outputs) = Inl AssertionError"
    by blast
  have d: "files ?w ''c.v'' = Some demo_two_outputs" "files ?w ''b.v'' = Some demo_small"
    by (simp_all add: write_file_def demo_world_def)
  from first_output_declaration_decides
         [where w = ?w and f = "''c.v''" and fv = demo_two_outputs and s = "''b.v''"
            and sv = demo_small and E = demo_env] c' d
  have d': "fst (check_equiv demo_env ''c.v'' ''b.v'' ?w) = Inl AssertionError"
    by blast
  from a a' b b' c c' d' show ?thesis
    by simp
qed

lemma demo_two_outputs_lines:
  "split_chr (CHR 0x0A) (first_file_transformed_content demo_two_outputs)
     = [''module top_first (y, z, a);'', ''output wire z;'', ''output wire y;'',
        ''input wire a;'', ''endmodule'']"
  by code_simp

text \<open>
  The claim as stated fails: this design has an output declaration of the expected
  pattern, on its third line, and the builder fails all the same, because the first line
  that begins with \<open>output wire\<close> declares \<open>z\<close>.
\<close>

theorem later_output_declaration_is_ignored:
  "is_output_declaration ''output wire y;''
   \<and> ''output wire y;'' \<in> set (split_chr (CHR 0x0A) (first_file_transformed_content demo_two_outputs))
   \<and> new_top_lines (first_file_transformed_content demo_two_outputs) = Inl AssertionError"
proof -
  have "is_output_declaration ''output wire y;''"
    by code_simp
  moreover have "new_top_lines (first_file_transformed_content demo_two_outputs)
      = Inl AssertionError"
    by code_simp
  ultimately show ?thesis
    by (simp add: demo_two_outputs_lines)
qed

subsection \<open>Input ports and their bindings\<close>

lemma input_is_not_endmodule:
  "startswith s ''input'' \<Longrightarrow> \<not> startswith s ''endmodule''"
  by (cases s) (auto simp: startswith_def)

lemma collect_skips:
  "\<forall>line \<in> set mid. \<not> startswith (strip line) ''endmodule'' \<and> \<not> startswith (strip line) ''input''
   \<Longrightarrow> collect_input_wire_lines (mid @ rest) = collect_input_wire_lines rest"
  by (induction mid) (simp_all add: Let_def)

lemma collect_inputs:
  "\<forall>line \<in> set ins. startswith (strip line) ''input''
   \<Longrightarrow> collect_input_wire_lines (ins @ rest) = map strip ins @ collect_input_wire_lines rest"
  by (induction ins) (simp_all add: Let_def input_is_not_endmodule)

lemma new_top_lines_bindings:
  assumes "new_top_lines fc = Inr ls"
  shows "ls ! 0 = ''module top_equiv (y_a, y_b, ''
                @ join '', '' (input_wire_names (split_chr (CHR 0x0A) fc)) @ '');''
    \<and> ls ! (length ls - 3) = ''top_first top_first_inst (.y(y_a), ''
                  @ port_bindings (input_wire_names (split_chr (CHR 0x0A) fc)) @ '');''
    \<and> ls ! (length ls - 2) = ''top_second top_second_inst (.y(y_b), ''
                  @ port_bindings (input_wire_names (split_chr (CHR 0x0A) fc)) @ '');''"
proof -
  from assms obtain line where
    f: "find (\<lambda>line. startswith (strip line) ''output wire'') (split_chr (CHR 0x0A) fc) = Some line"
    by (cases "find (\<lambda>line. startswith (strip line) ''output wire'') (split_chr (CHR 0x0A) fc)")
       (auto simp: new_top_lines_not_found)
  from assms show ?thesis
    unfolding new_top_lines_found [OF f]
    by (auto simp: nth_append split: if_splits)
qed

text \<open>
  C2. Let the lines that the builder scans (from the header of \<open>top_first\<close> on) be some
  lines that are neither input declarations nor \<open>endmodule\<close>, then the input declarations
  \<open>ins\<close> taken in the order given by the index list \<open>order\<close>, then the rest. Then the
  instances \<open>top_first_inst\<close> and \<open>top_second_inst\<close> carry the same list of bindings, by
  name: the names of \<open>ins\<close> taken in that same order, followed by the names of the inputs
  found in the rest. So the declared order is the order of the bindings, and permuting the
  declarations permutes the bindings of both instances in the same way.
\<close>

theorem both_instances_bound_in_declared_order:
  assumes "(case top_first_line_id (split_chr (CHR 0x0A) (first_file_transformed_content first_verilog)) of
              None \<Rightarrow> split_chr (CHR 0x0A) (first_file_transformed_content first_verilog)
            | Some i \<Rightarrow> drop i (split_chr (CHR 0x0A) (first_file_transformed_content first_verilog)))
           = mid @ map ((!) ins) order @ rest"
    and "\<forall>line \<in> set mid. \<not> startswith (strip line) ''endmodule'' \<and> \<not> startswith (strip line) ''input''"
    and "\<forall>line \<in> set ins. startswith (strip line) ''input''"
    and "\<forall>i \<in> set order. i < length ins"
    and "new_top_lines (first_file_transformed_content first_verilog) = Inr ls"
  shows "let names = map ((!) (map (\<lambda>line. wire_name (strip line)) ins)) order
                       @ map wire_name (collect_input_wire_lines rest)
         in ls ! 0 = ''module top_equiv (y_a, y_b, '' @ join '', '' names @ '');''
          \<and> ls ! (length ls - 3)
              = ''top_first top_first_inst (.y(y_a), '' @ port_bindings names @ '');''
          \<and> ls ! (length ls - 2)
              = ''top_second top_second_inst (.y(y_b), '' @ port_bindings names @ '');''"
proof -
  let ?lines = "split_chr (CHR 0x0A) (first_file_transformed_content first_verilog)"
  have p: "\<forall>line \<in> set (map ((!) ins) order). startswith (strip line) ''input''"
    using assms(3,4) by auto
  have "input_wire_lines ?lines = collect_input_wire_lines (mid @ map ((!) ins) order @ rest)"
    using assms(1) by (simp add: input_wire_lines_def)
  also have "\<dots> = map strip (map ((!) ins) order) @ collect_input_wire_lines rest"
    using collect_skips [OF assms(2)] collect_inputs [OF p] by simp
  finally have "input_wire_names ?lines
      = map ((!) (map (\<lambda>line. wire_name (strip line)) ins)) order
          @ map wire_name (collect_input_wire_lines rest)"
    using assms(4) by (simp add: input_wire_names_def)
  with new_top_lines_bindings [OF assms(5)] show ?thesis
    by (simp add: Let_def)
qed

subsection \<open>Two declaration orders\<close>

lemma demo_regions:
  "(case top_first_line_id (split_chr (CHR 0x0A) (first_file_transformed_content demo_big)) of
      None \<Rightarrow> split_chr (CHR 0x0A) (first_file_transformed_content demo_big)
    | Some i \<Rightarrow> drop i (split_chr (CHR 0x0A) (first_file_transformed_content demo_big)))
     = demo_header @ map ((!) demo_inputs) [0, 1] @ [''endmodule'']"
  "(case top_first_line_id (split_chr (CHR 0x0A) (first_file_transformed_content demo_swapped)) of
      None \<Rightarrow> split_chr (CHR 0x0A) (first_file_transformed_content demo_swapped)
    | Some i \<Rightarrow> drop i (split_chr (CHR 0x0A) (first_file_transformed_content demo_swapped)))
     = demo_header @ map ((!) demo_inputs) [1, 0] @ [''endmodule'']"
  by code_simp+

lemma demo_shape:
  "\<forall>line \<in> set demo_header.
     \<not> startswith (strip line) ''endmodule'' \<and> \<not> startswith (strip line) ''input''"
  "\<forall>line \<in> set demo_inputs. startswith (strip line) ''input''"
  "\<forall>i \<in> set [0, 1]. i < length demo_inputs"
  "\<forall>i \<in> set [1, 0]. i < length demo_inputs"
  by code_simp+

lemma demo_tops:
  "new_top_lines (first_file_transformed_content demo_big) = Inr demo_big_top"
  "new_top_lines (first_file_transformed_content demo_swapped) = Inr demo_swapped_top"
  by code_simp+

lemma demo_names:
  "map ((!) (map (\<lambda>line. wire_name (strip line)) demo_inputs)) [0, 1]
     @ map wire_name (collect_input_wire_lines [''endmodule'']) = [''a'', ''b'']"
  "map ((!) (map (\<lambda>line. wire_name (strip line)) demo_inputs)) [1, 0]
     @ map wire_name (collect_input_wire_lines [''endmodule'']) = [''b'', ''a'']"
  "port_bindings [''a'', ''b''] = ''.a, .b''"
  "port_bindings [''b'', ''a''] = ''.b, .a''"
  by code_simp+

theorem both_instances_bound_in_declared_order_witness:
  "new_top_lines (first_file_transformed_content demo_big) = Inr demo_big_top
   \<and> demo_big_top ! (length demo_big_top - 3) = ''top_first top_first_inst (.y(y_a), .a, .b);''
   \<and> demo_big_top ! (length demo_big_top - 2) = ''top_second top_second_inst (.y(y_b), .a, .b);''
   \<and> new_top_lines (first_file_transformed_content demo_swapped) = Inr demo_swapped_top
   \<and> demo_swapped_top ! (length demo_swapped_top - 3)
       = ''top_first top_first_inst (.y(y_a), .b, .a);''
   \<and> demo_swapped_top ! (length demo_swapped_top - 2)
       = ''top_second top_second_inst (.y(y_b), .b, .a);''"
proof -
  from both_instances_bound_in_declared_order
         [OF demo_regions(1) demo_shape(1) demo_shape(2) demo_shape(3) demo_tops(1)]
  have a: "demo_big_top ! (length demo_big_top - 3) = ''top_first top_first_inst (.y(y_a), .a, .b);''
     \<and> demo_big_top ! (length demo_big_top - 2) = ''top_second top_second_inst (.y(y_b), .a, .b);''"
    unfolding Let_def demo_names by simp
  from both_instances_bound_in_declared_order
         [OF demo_regions(2) demo_shape(1) demo_shape(2) demo_shape(4) demo_tops(2)]
  have b: "demo_swapped_top ! (length demo_swapped_top - 3)
       = ''top_first top_first_inst (.y(y_a), .b, .a);''
     \<and> demo_swapped_top ! (length demo_swapped_top - 2)
       = ''top_second top_second_inst (.y(y_b), .b, .a);''"
    unfolding Let_def demo_names by simp
  from a b demo_tops show ?thesis
    by simp
qed

section \<open>Module names of the two designs\<close>

subsection \<open>Prefixes\<close>

lemma startswith_Nil [simp]: "startswith s [] = True"
  by (simp add: startswith_def)

lemma startswith_Nil_Cons [simp]: "startswith [] (a # p) = False"
  by (simp add: startswith_def)

lemma startswith_Cons [simp]: "startswith (x # xs) (a # p) \<longleftrightarrow> x = a \<and> startswith xs p"
  by (simp add: startswith_def)

lemma startswith_append: "startswith s p \<Longrightarrow> s = p @ drop (length p) s"
  by (metis append_take_drop_id startswith_def)

lemma digit_not_m: "is_digit c \<Longrightarrow> c \<noteq> CHR ''m''"
  by (auto simp: is_digit_def)

lemma not_digit [simp]:
  "\<not> is_digit (CHR ''m'')" "\<not> is_digit (CHR '' '')" "\<not> is_digit (CHR ''_'')"
  by (simp_all add: is_digit_def)

subsection \<open>Renaming the top module leaves the occurrences alone\<close>

lemma replace_scan_step:
  "x \<noteq> CHR ''m'' \<Longrightarrow>
     replace_scan (CHR ''m'' # old) new (x # xs) = x # replace_scan (CHR ''m'' # old) new xs"
  by simp

lemma replace_scan_passes:
  "CHR ''m'' \<notin> set p \<Longrightarrow>
     replace_scan (CHR ''m'' # old) new (p @ r) = p @ replace_scan (CHR ''m'' # old) new r"
  by (induction p) auto

lemma replace_scan_head:
  "\<exists>ys. replace_scan (CHR ''m'' # old) (CHR ''m'' # new) (x # xs) = x # ys"
  by simp

lemma replace_scan_startswith:
  "CHR ''m'' \<notin> set p \<Longrightarrow>
     startswith (replace_scan (CHR ''m'' # old) (CHR ''m'' # new) s) p = startswith s p"
proof (induction p arbitrary: s)
  case Nil
  then show ?case by simp
next
  case (Cons a p)
  show ?case
  proof (cases s)
    case Nil
    then show ?thesis by simp
  next
    case (Cons x xs)
    with Cons.prems Cons.IH [of xs] show ?thesis
      by auto
  qed
qed

lemma replace_scan_takeWhile:
  "takeWhile is_digit (replace_scan (CHR ''m'' # old) (CHR ''m'' # new) s) = takeWhile is_digit s"
proof (induction s)
  case Nil
  then show ?case by simp
next
  case (Cons x xs)
  then show ?case
    by (cases "is_digit x") (auto dest: digit_not_m)
qed

lemma module_occurrences_match:
  "matches_here t \<Longrightarrow>
     module_occurrences t =
       (''module'' @ takeWhile is_digit (drop 6 t), dropWhile is_digit (drop 6 t))
         # module_occurrences (dropWhile is_digit (drop 6 t))"
  by (cases t) (auto simp: matches_here_def)

lemma module_occurrences_skip:
  "\<not> matches_here (x # xs) \<Longrightarrow> module_occurrences (x # xs) = module_occurrences xs"
  by (auto simp: matches_here_def)

lemma module_occurrences_passes:
  "CHR ''m'' \<notin> set p \<Longrightarrow> module_occurrences (p @ r) = module_occurrences r"
  by (induction p) auto

lemma matches_here_shape:
  assumes "matches_here t"
  shows "t = ''module'' @ takeWhile is_digit (drop 6 t) @ dropWhile is_digit (drop 6 t)"
proof -
  from assms have "take 6 t = ''module''"
    unfolding matches_here_def startswith_def by (simp add: eval_nat_numeral)
  then have "t = ''module'' @ drop 6 t"
    by (metis append_take_drop_id)
  then show ?thesis
    by (metis takeWhile_dropWhile_id)
qed

lemma digits_no_m: "CHR ''m'' \<notin> set (takeWhile is_digit xs)"
  by (auto dest: set_takeWhileD digit_not_m)

lemma match_then_text:
  assumes "\<forall>c \<in> set ds. is_digit c" "ds \<noteq> []" "takeWhile is_digit r = []"
  shows "matches_here (''module'' @ ds @ r)"
    and "takeWhile is_digit (drop 6 (''module'' @ ds @ r)) = ds"
    and "dropWhile is_digit (drop 6 (''module'' @ ds @ r)) = r"
proof -
  have t: "takeWhile is_digit (ds @ r) = ds"
    using assms(1,3) by (simp add: takeWhile_append2)
  have d: "dropWhile is_digit (ds @ r) = r"
    using assms(1,3) by (metis t takeWhile_dropWhile_id same_append_eq)
  from t assms(2) show "matches_here (''module'' @ ds @ r)"
    by (simp add: matches_here_def)
  from t show "takeWhile is_digit (drop 6 (''module'' @ ds @ r)) = ds" by simp
  from d show "dropWhile is_digit (drop 6 (''module'' @ ds @ r)) = r" by simp
qed

lemma takeWhile_after_dropWhile [simp]: "takeWhile P (dropWhile P xs) = []"
  by (induction xs) auto

lemma top_header_shape:
  assumes "startswith s ''module top''"
  obtains z where "s = ''module top'' @ z"
proof -
  from assms have "take 10 s = ''module top''"
    unfolding startswith_def by (simp add: eval_nat_numeral)
  then have "s = ''module top'' @ drop 10 s"
    by (metis append_take_drop_id)
  then show ?thesis ..
qed

lemma top_header_no_match: "\<not> matches_here (''module top'' @ z)"
  by (simp add: matches_here_def)

lemma replace_scan_miss:
  assumes "\<not> startswith (x # xs) ''module top''"
  shows "matches_here (x # replace_scan ''module top'' (CHR ''m'' # nw) xs)
           = matches_here (x # xs)"
proof (cases "x = CHR ''m'' \<and> startswith xs ''odule''")
  case False
  then show ?thesis
    using replace_scan_startswith [of "''odule''" "''odule top''" nw xs]
    by (auto simp: matches_here_def)
next
  case True
  then have "take 5 xs = ''odule''"
    unfolding startswith_def by (simp add: eval_nat_numeral)
  then have xs: "xs = ''odule'' @ drop 5 xs"
    by (metis append_take_drop_id)
  have "replace_scan ''module top'' (CHR ''m'' # nw) (''odule'' @ drop 5 xs)
      = ''odule'' @ replace_scan ''module top'' (CHR ''m'' # nw) (drop 5 xs)"
    using replace_scan_passes [of "''odule''" "''odule top''" "CHR ''m'' # nw" "drop 5 xs"]
    by simp
  with xs have r: "replace_scan ''module top'' (CHR ''m'' # nw) xs
      = ''odule'' @ replace_scan ''module top'' (CHR ''m'' # nw) (drop 5 xs)"
    by simp
  have t: "takeWhile is_digit (replace_scan ''module top'' (CHR ''m'' # nw) (drop 5 xs))
      = takeWhile is_digit (drop 5 xs)"
    using replace_scan_takeWhile [of "''odule top''" nw "drop 5 xs"]
    by simp
  have "matches_here (x # replace_scan ''module top'' (CHR ''m'' # nw) xs)
      \<longleftrightarrow> takeWhile is_digit (drop 5 xs) \<noteq> []"
    using True t by (simp add: matches_here_def r)
  moreover have "matches_here (x # xs) \<longleftrightarrow> takeWhile is_digit (drop 5 xs) \<noteq> []"
    using True by (simp add: matches_here_def)
  ultimately show ?thesis by simp
qed

lemma digit_not_space: "is_digit c \<Longrightarrow> c \<noteq> CHR '' ''"
  by (auto simp: is_digit_def)

lemma replace_scan_module_digits:
  assumes "\<forall>c \<in> set ds. is_digit c" "ds \<noteq> []"
  shows "replace_scan ''module top'' new (''module'' @ ds @ rest)
     = ''module'' @ ds @ replace_scan ''module top'' new rest"
proof -
  from assms obtain d ds' where ds: "ds = d # ds'" and d: "is_digit d"
    by (cases ds) auto
  have m: "CHR ''m'' \<notin> set (''odule'' @ ds)"
    using assms(1) by (auto dest: digit_not_m)
  have "replace_scan ''module top'' new (''module'' @ ds @ rest)
      = CHR ''m'' # replace_scan ''module top'' new ((''odule'' @ ds) @ rest)"
    using digit_not_space [OF d] by (simp add: ds)
  also have "\<dots> = CHR ''m'' # (''odule'' @ ds) @ replace_scan ''module top'' new rest"
    using replace_scan_passes [OF m, of "''odule top''" new rest] by simp
  finally show ?thesis by simp
qed

lemma replace_scan_hit:
  assumes "matches_here s"
  shows "replace_scan ''module top'' new s
     = ''module'' @ takeWhile is_digit (drop 6 s)
         @ replace_scan ''module top'' new (dropWhile is_digit (drop 6 s))"
proof -
  let ?ds = "takeWhile is_digit (drop 6 s)" and ?rest = "dropWhile is_digit (drop 6 s)"
  have "s = ''module'' @ ?ds @ ?rest"
    by (rule matches_here_shape [OF assms])
  then have e1: "replace_scan ''module top'' new s
      = replace_scan ''module top'' new (''module'' @ ?ds @ ?rest)"
    by (rule arg_cong)
  have d: "\<forall>c \<in> set ?ds. is_digit c" "?ds \<noteq> []"
    using assms by (auto simp: matches_here_def dest: set_takeWhileD)
  have e2: "replace_scan ''module top'' new (''module'' @ ?ds @ ?rest)
      = ''module'' @ ?ds @ replace_scan ''module top'' new ?rest"
    by (rule replace_scan_module_digits [OF d])
  from e1 e2 show ?thesis
    by (rule trans)
qed

lemma replace_scan_Cons_miss:
  "\<not> startswith (x # xs) old \<Longrightarrow> replace_scan old new (x # xs) = x # replace_scan old new xs"
  by (simp del: startswith_Cons)

lemma occurrences_after_top_rename:
  assumes skip: "\<And>t. module_occurrences ((CHR ''m'' # nw) @ t) = module_occurrences t"
  shows "module_occurrences (replace_scan ''module top'' (CHR ''m'' # nw) s)
     = map (\<lambda>(m, rest). (m, replace_scan ''module top'' (CHR ''m'' # nw) rest))
         (module_occurrences s)"
proof (induction s rule: length_induct)
  case (1 s)
  let ?R = "replace_scan ''module top'' (CHR ''m'' # nw)"
  show ?case
  proof (cases s)
    case Nil
    then show ?thesis by simp
  next
    case (Cons x xs)
    consider (top) "startswith s ''module top''"
      | (hit) "\<not> startswith s ''module top''" "matches_here s"
      | (miss) "\<not> startswith s ''module top''" "\<not> matches_here s"
      by blast
    then show ?thesis
    proof cases
      case top
      then obtain z where z: "s = ''module top'' @ z"
        by (rule top_header_shape)
      have r: "?R s = (CHR ''m'' # nw) @ ?R z"
        by (simp add: z)
      have a: "module_occurrences (?R s) = module_occurrences (?R z)"
        unfolding r by (rule skip)
      have b: "module_occurrences s = module_occurrences z"
        using module_occurrences_passes [of "''odule top''" z] by (simp add: z)
      have "length z < length s"
        by (simp add: z)
      with 1 have "module_occurrences (?R z) = map (\<lambda>(m, rest). (m, ?R rest)) (module_occurrences z)"
        by blast
      with a b show ?thesis by simp
    next
      case hit
      let ?ds = "takeWhile is_digit (drop 6 s)" and ?rest = "dropWhile is_digit (drop 6 s)"
      have r: "?R s = ''module'' @ ?ds @ ?R ?rest"
        by (rule replace_scan_hit [OF hit(2)])
      have t: "takeWhile is_digit (?R ?rest) = []"
        using replace_scan_takeWhile [of "''odule top''" nw ?rest] by simp
      have d: "\<forall>c \<in> set ?ds. is_digit c" "?ds \<noteq> []"
        using hit(2) by (auto simp: matches_here_def dest: set_takeWhileD)
      from match_then_text [OF d t] module_occurrences_match [of "''module'' @ ?ds @ ?R ?rest"]
      have a: "module_occurrences (?R s) = (''module'' @ ?ds, ?R ?rest) # module_occurrences (?R ?rest)"
        unfolding r by simp
      have b: "module_occurrences s = (''module'' @ ?ds, ?rest) # module_occurrences ?rest"
        by (rule module_occurrences_match [OF hit(2)])
      have "length ?rest \<le> length (drop 6 s)"
        by (rule length_dropWhile_le)
      then have "length ?rest < length s"
        using Cons by simp
      with 1 have "module_occurrences (?R ?rest)
          = map (\<lambda>(m, rest). (m, ?R rest)) (module_occurrences ?rest)"
        by blast
      with a b show ?thesis by simp
    next
      case miss
      from miss(1) have r: "?R s = x # ?R xs"
        unfolding Cons by (rule replace_scan_Cons_miss)
      from replace_scan_miss [of x xs nw] miss have "\<not> matches_here (x # ?R xs)"
        by (simp add: Cons)
      then have a: "module_occurrences (?R s) = module_occurrences (?R xs)"
        unfolding r by (rule module_occurrences_skip)
      from miss(2) have b: "module_occurrences s = module_occurrences xs"
        unfolding Cons by (rule module_occurrences_skip)
      from 1 have "module_occurrences (?R xs) = map (\<lambda>(m, rest). (m, ?R rest)) (module_occurrences xs)"
        by (simp add: Cons)
      with a b show ?thesis by simp
    qed
  qed
qed

subsection \<open>Renaming the modules suffixes every occurrence\<close>

lemma rename_match:
  "matches_here t \<Longrightarrow>
     rename_all_verismith_modules t =
       ''module'' @ takeWhile is_digit (drop 6 t) @ ''_replacedname''
         @ rename_all_verismith_modules (dropWhile is_digit (drop 6 t))"
  by (cases t) (auto simp: matches_here_def)

lemma rename_skip:
  "\<not> matches_here (x # xs) \<Longrightarrow>
     rename_all_verismith_modules (x # xs) = x # rename_all_verismith_modules xs"
  by (auto simp: matches_here_def)

lemma rename_passes:
  "CHR ''m'' \<notin> set p \<Longrightarrow>
     rename_all_verismith_modules (p @ r) = p @ rename_all_verismith_modules r"
  by (induction p) auto

lemma rename_startswith:
  "CHR ''m'' \<notin> set p \<Longrightarrow> startswith (rename_all_verismith_modules s) p = startswith s p"
proof (induction p arbitrary: s)
  case Nil
  then show ?case by simp
next
  case (Cons a p)
  show ?case
  proof (cases s)
    case Nil
    then show ?thesis by simp
  next
    case (Cons x xs)
    with Cons.prems Cons.IH [of xs] show ?thesis
      by auto
  qed
qed

lemma rename_takeWhile:
  "takeWhile is_digit (rename_all_verismith_modules s) = takeWhile is_digit s"
proof (induction s)
  case Nil
  then show ?case by simp
next
  case (Cons x xs)
  then show ?case
    by (cases "is_digit x") (auto dest: digit_not_m)
qed

lemma rename_miss:
  "matches_here (x # rename_all_verismith_modules xs) = matches_here (x # xs)"
proof (cases "x = CHR ''m'' \<and> startswith xs ''odule''")
  case False
  then show ?thesis
    using rename_startswith [of "''odule''" xs]
    by (auto simp: matches_here_def)
next
  case True
  then have "take 5 xs = ''odule''"
    unfolding startswith_def by (simp add: eval_nat_numeral)
  then have xs: "xs = ''odule'' @ drop 5 xs"
    by (metis append_take_drop_id)
  have "rename_all_verismith_modules (''odule'' @ drop 5 xs)
      = ''odule'' @ rename_all_verismith_modules (drop 5 xs)"
    using rename_passes [of "''odule''" "drop 5 xs"] by simp
  with xs have r: "rename_all_verismith_modules xs
      = ''odule'' @ rename_all_verismith_modules (drop 5 xs)"
    by simp
  have "matches_here (x # rename_all_verismith_modules xs)
      \<longleftrightarrow> takeWhile is_digit (drop 5 xs) \<noteq> []"
    using True by (simp add: matches_here_def r rename_takeWhile)
  moreover have "matches_here (x # xs) \<longleftrightarrow> takeWhile is_digit (drop 5 xs) \<noteq> []"
    using True by (simp add: matches_here_def)
  ultimately show ?thesis by simp
qed

lemma occurrences_past_suffix:
  "module_occurrences (''_replacedname'' @ t) = module_occurrences t"
  by simp

lemma occurrences_after_rename:
  "module_occurrences (rename_all_verismith_modules s)
     = map (\<lambda>(m, rest). (m, ''_replacedname'' @ rename_all_verismith_modules rest))
         (module_occurrences s)"
proof (induction s rule: length_induct)
  case (1 s)
  let ?N = rename_all_verismith_modules
  show ?case
  proof (cases s)
    case Nil
    then show ?thesis by simp
  next
    case (Cons x xs)
    show ?thesis
    proof (cases "matches_here s")
      case True
      let ?ds = "takeWhile is_digit (drop 6 s)" and ?rest = "dropWhile is_digit (drop 6 s)"
      have r: "?N s = ''module'' @ ?ds @ (''_replacedname'' @ ?N ?rest)"
        using rename_match [OF True] by simp
      have t: "takeWhile is_digit (''_replacedname'' @ ?N ?rest) = []"
        by simp
      have d: "\<forall>c \<in> set ?ds. is_digit c" "?ds \<noteq> []"
        using True by (auto simp: matches_here_def dest: set_takeWhileD)
      from match_then_text [OF d t]
        module_occurrences_match [of "''module'' @ ?ds @ (''_replacedname'' @ ?N ?rest)"]
      have "module_occurrences (?N s)
          = (''module'' @ ?ds, ''_replacedname'' @ ?N ?rest)
              # module_occurrences (''_replacedname'' @ ?N ?rest)"
        unfolding r by simp
      then have a: "module_occurrences (?N s)
          = (''module'' @ ?ds, ''_replacedname'' @ ?N ?rest) # module_occurrences (?N ?rest)"
        by (simp only: occurrences_past_suffix)
      have b: "module_occurrences s = (''module'' @ ?ds, ?rest) # module_occurrences ?rest"
        by (rule module_occurrences_match [OF True])
      have "length ?rest \<le> length (drop 6 s)"
        by (rule length_dropWhile_le)
      then have "length ?rest < length s"
        using Cons by simp
      with 1 have "module_occurrences (?N ?rest)
          = map (\<lambda>(m, rest). (m, ''_replacedname'' @ ?N rest)) (module_occurrences ?rest)"
        by blast
      with a b show ?thesis by simp
    next
      case False
      then have r: "?N s = x # ?N xs"
        unfolding Cons by (rule rename_skip)
      from False have "\<not> matches_here (x # ?N xs)"
        by (simp add: rename_miss Cons)
      then have a: "module_occurrences (?N s) = module_occurrences (?N xs)"
        unfolding r by (rule module_occurrences_skip)
      from False have b: "module_occurrences s = module_occurrences xs"
        unfolding Cons by (rule module_occurrences_skip)
      from 1 have "module_occurrences (?N xs)
          = map (\<lambda>(m, rest). (m, ''_replacedname'' @ ?N rest)) (module_occurrences xs)"
        by (simp add: Cons)
      with a b show ?thesis by simp
    qed
  qed
qed

lemma top_rename_past_suffix:
  "replace_scan ''module top'' new (''_replacedname'' @ t)
     = ''_replacedname'' @ replace_scan ''module top'' new t"
  by simp

text \<open>
  C6. Scanning a text from left to right for the pattern \<open>module<number>\<close> gives its
  occurrences, each with the text that follows it. The text written for the first design
  has the occurrences of the first design, unchanged: the renaming is not applied to it, and
  renaming its top module leaves them as they are. In the text written for the second
  design every occurrence of the second design is there, followed by \<open>_replacedname\<close>. So
  a module that both designs call \<open>module7\<close> is \<open>module7\<close> in the first text and
  \<open>module7_replacedname\<close> in the second.
\<close>

theorem only_second_design_is_renamed:
  "module_occurrences (first_file_transformed_content first_verilog)
     = map (\<lambda>(m, rest). (m, first_file_transformed_content rest))
         (module_occurrences first_verilog)
   \<and> module_occurrences (second_file_transformed_content second_verilog)
     = map (\<lambda>(m, rest). (m, ''_replacedname'' @ second_file_transformed_content rest))
         (module_occurrences second_verilog)"
proof
  have "module_occurrences ((CHR ''m'' # ''odule top_first'') @ t) = module_occurrences t" for t
    by simp
  from occurrences_after_top_rename [of "''odule top_first''", OF this]
  show "module_occurrences (first_file_transformed_content first_verilog)
     = map (\<lambda>(m, rest). (m, first_file_transformed_content rest))
         (module_occurrences first_verilog)"
    by (simp add: first_file_transformed_content_def [abs_def] replace_def)
next
  have "module_occurrences ((CHR ''m'' # ''odule top_second'') @ t) = module_occurrences t" for t
    by simp
  from occurrences_after_top_rename [of "''odule top_second''", OF this]
  have "module_occurrences (second_file_transformed_content second_verilog)
      = map (\<lambda>(m, rest). (m, replace_scan ''module top'' ''module top_second'' rest))
          (module_occurrences (rename_all_verismith_modules second_verilog))"
    by (simp add: second_file_transformed_content_def replace_def)
  also have "\<dots> = map (\<lambda>(m, rest). (m, ''_replacedname'' @ second_file_transformed_content rest))
         (module_occurrences second_verilog)"
    unfolding occurrences_after_rename
    by (simp add: second_file_transformed_content_def [abs_def] replace_def case_prod_unfold)
  finally show "module_occurrences (second_file_transformed_content second_verilog)
     = map (\<lambda>(m, rest). (m, ''_replacedname'' @ second_file_transformed_content rest))
         (module_occurrences second_verilog)" .
qed

lemma demo_first_occurrences:
  "map (\<lambda>(m, rest). (m, take 4 rest))
       (map (\<lambda>(m, rest). (m, first_file_transformed_content rest))
          (module_occurrences demo_modules))
     = [(''module7'', '' (y)''), (''module7'', '' m ('')]"
  by code_simp

lemma demo_second_occurrences:
  "map (\<lambda>(m, rest). (m, take 17 rest))
       (map (\<lambda>(m, rest). (m, ''_replacedname'' @ second_file_transformed_content rest))
          (module_occurrences demo_modules))
     = [(''module7'', ''_replacedname (y)''), (''module7'', ''_replacedname m ('')]"
  by code_simp

theorem only_second_design_is_renamed_witness:
  "map (\<lambda>(m, rest). (m, take 4 rest))
       (module_occurrences (first_file_transformed_content demo_modules))
     = [(''module7'', '' (y)''), (''module7'', '' m ('')]
   \<and> map (\<lambda>(m, rest). (m, take 17 rest))
       (module_occurrences (second_file_transformed_content demo_modules))
     = [(''module7'', ''_replacedname (y)''), (''module7'', ''_replacedname m ('')]"
proof -
  note eqs = only_second_design_is_renamed [of demo_modules demo_modules]
  from eqs have a: "module_occurrences (first_file_transformed_content demo_modules)
     = map (\<lambda>(m, rest). (m, first_file_transformed_content rest))
         (module_occurrences demo_modules)"
    by (rule conjunct1)
  from eqs have b: "module_occurrences (second_file_transformed_content demo_modules)
     = map (\<lambda>(m, rest). (m, ''_replacedname'' @ second_file_transformed_content rest))
         (module_occurrences demo_modules)"
    by (rule conjunct2)
  show ?thesis
    unfolding a b using demo_first_occurrences demo_second_occurrences by (rule conjI)
qed

section \<open>The fingerprint and the hash\<close>

lemma hex_digit_value_hexdigit: "d < 16 \<Longrightarrow> hex_digit_value (hexdigit d) = d"
proof -
  assume "d < 16"
  then have "d = 0 \<or> d = 1 \<or> d = 2 \<or> d = 3 \<or> d = 4 \<or> d = 5 \<or> d = 6 \<or> d = 7
      \<or> d = 8 \<or> d = 9 \<or> d = 10 \<or> d = 11 \<or> d = 12 \<or> d = 13 \<or> d = 14 \<or> d = 15"
    by arith
  then show ?thesis
    by (elim disjE) (simp_all add: hexdigit_def hex_digit_value_def is_digit_def)
qed

lemma hex_value_snoc: "hex_value (s @ [c]) = 16 * hex_value s + hex_digit_value c"
  by (simp add: hex_value_def)

lemma hex_value_hex_digits: "hex_value (hex_digits n) = n"
proof (induction n rule: hex_digits.induct)
  case (1 n)
  show ?case
  proof (cases "n < 16")
    case True
    then show ?thesis
      by (simp add: hex_digits.simps [of n] hex_value_def hex_digit_value_hexdigit)
  next
    case False
    with 1 have "hex_value (hex_digits (n div 16)) = n div 16"
      by simp
    with False show ?thesis
      by (simp add: hex_digits.simps [of n] hex_value_snoc hex_digit_value_hexdigit)
  qed
qed

lemma hex_value_zeros: "hex_value (replicate k (CHR ''0'') @ s) = hex_value s"
proof (induction k)
  case 0
  then show ?case by simp
next
  case (Suc k)
  have z: "hex_digit_value (CHR ''0'') = 0"
    by (simp add: hex_digit_value_def is_digit_def)
  have "foldl (\<lambda>a c. 16 * a + hex_digit_value c) 0 (CHR ''0'' # t)
      = foldl (\<lambda>a c. 16 * a + hex_digit_value c) 0 t" for t
    by (simp add: z)
  with Suc show ?case
    by (simp add: hex_value_def)
qed

lemma fingerprint_value: "hex_value (trial_design_hash h s) = nat \<bar>sint (h s)\<bar>"
  by (simp add: trial_design_hash_def py_hex_def rjust_def hex_value_zeros hex_value_hex_digits)

text \<open>
  C7, as amended. The fingerprint is a function of the design text and of the hash function
  of the running interpreter: computations in which the hash of the text is the same give
  the same string, and under one hash function two texts have the same fingerprint exactly
  when the absolute values of their hashes agree. The string computed by the trial executor
  has 16 characters; the one computed in \<open>check_equiv\<close> is the same hexadecimal number
  without the padding.
\<close>

theorem fingerprint_determined_by_hash:
  "(h1 s1 = h2 s2 \<longrightarrow>
      trial_design_hash h1 s1 = trial_design_hash h2 s2
      \<and> equiv_design_hash h1 s1 = equiv_design_hash h2 s2)
   \<and> (trial_design_hash h s1 = trial_design_hash h s2 \<longleftrightarrow> \<bar>sint (h s1)\<bar> = \<bar>sint (h s2)\<bar>)
   \<and> length (trial_design_hash h s) = 16
   \<and> trial_design_hash h s = rjust 16 (CHR ''0'') (equiv_design_hash h s)"
proof (intro conjI impI)
  assume "h1 s1 = h2 s2"
  then show "trial_design_hash h1 s1 = trial_design_hash h2 s2"
    and "equiv_design_hash h1 s1 = equiv_design_hash h2 s2"
    by (simp_all add: trial_design_hash_def equiv_design_hash_def)
next
  show "trial_design_hash h s1 = trial_design_hash h s2 \<longleftrightarrow> \<bar>sint (h s1)\<bar> = \<bar>sint (h s2)\<bar>"
  proof
    assume "trial_design_hash h s1 = trial_design_hash h s2"
    then have "hex_value (trial_design_hash h s1) = hex_value (trial_design_hash h s2)"
      by simp
    then show "\<bar>sint (h s1)\<bar> = \<bar>sint (h s2)\<bar>"
      by (simp add: fingerprint_value)
  next
    assume "\<bar>sint (h s1)\<bar> = \<bar>sint (h s2)\<bar>"
    then show "trial_design_hash h s1 = trial_design_hash h s2"
      by (simp add: trial_design_hash_def)
  qed
next
  show "length (trial_design_hash h s) = 16"
    by (rule length_trial_hash)
next
  show "trial_design_hash h s = rjust 16 (CHR ''0'') (equiv_design_hash h s)"
    by (simp add: trial_design_hash_def equiv_design_hash_def)
qed

lemma demo_fingerprints:
  "trial_design_hash demo_hash_a demo_small = ''0000000000000039''"
  "trial_design_hash demo_hash_b demo_small = ''000000000000003a''"
  "equiv_design_hash demo_hash_a demo_small = ''39''"
  by code_simp+

lemma demo_equal_hashes: "demo_hash_a demo_small = demo_hash_b (tl demo_small)"
  by code_simp

theorem fingerprint_determined_by_hash_witness:
  "demo_hash_a demo_small = demo_hash_b (tl demo_small)
   \<and> trial_design_hash demo_hash_a demo_small = trial_design_hash demo_hash_b (tl demo_small)
   \<and> trial_design_hash demo_hash_a demo_small = ''0000000000000039''
   \<and> equiv_design_hash demo_hash_a demo_small = ''39''
   \<and> length (trial_design_hash demo_hash_a demo_small) = 16
   \<and> trial_design_hash demo_hash_a demo_small
       = rjust 16 (CHR ''0'') (equiv_design_hash demo_hash_a demo_small)"
proof -
  note inst = fingerprint_determined_by_hash
          [of demo_hash_a demo_small demo_hash_b "tl demo_small" demo_hash_a demo_small]
  from inst demo_equal_hashes
  have a: "trial_design_hash demo_hash_a demo_small
      = trial_design_hash demo_hash_b (tl demo_small)"
    by blast
  from inst have b: "length (trial_design_hash demo_hash_a demo_small) = 16"
    by blast
  from inst have c: "trial_design_hash demo_hash_a demo_small
       = rjust 16 (CHR ''0'') (equiv_design_hash demo_hash_a demo_small)"
    by blast
  from a b c demo_equal_hashes demo_fingerprints(1) demo_fingerprints(3) show ?thesis
    by blast
qed

text \<open>
  The claim as stated fails: the builtin hash is keyed per interpreter, and under two hash
  functions that differ on a text its fingerprints differ; and the string computed in
  \<open>check_equiv\<close> is not of fixed width.
\<close>

theorem fingerprint_differs_between_interpreters:
  "trial_design_hash demo_hash_a demo_small \<noteq> trial_design_hash demo_hash_b demo_small
   \<and> length (equiv_design_hash demo_hash_a demo_small) \<noteq> 16"
  by (simp add: demo_fingerprints)

end
